theory Spec2Isabelle
  imports Main
begin

section \<open>tsh: a tiny shell with job control\<close>

text \<open>
  A shallow embedding of \<^verbatim>\<open>src/tsh.c\<close>. The global job array \<^verbatim>\<open>jobs[MAXJOBS]\<close>, the
  counter \<^verbatim>\<open>nextjid\<close> and the flag \<^verbatim>\<open>verbose\<close> form the record \<open>shell\<close>, which every
  function that touches them takes and returns. What a function prints is returned as a
  string, the signals it sends as a list. A \<^verbatim>\<open>for (i = 0; i < MAXJOBS; i++)\<close> loop is a
  recursive function on the index \<open>i\<close>, a pointer \<^verbatim>\<open>&jobs[i]\<close> is the index \<open>i\<close>.
  Values of the types \<^verbatim>\<open>int\<close> and \<^verbatim>\<open>pid_t\<close> are integers without a bound: no counter of the
  shell comes near the range of a C \<^verbatim>\<open>int\<close>.
\<close>

subsection \<open>Manifest constants and the job structure\<close>

definition MAXLINE :: nat where
  "MAXLINE = 1024"

definition MAXARGS :: nat where
  "MAXARGS = 128"

definition MAXJOBS :: nat where
  "MAXJOBS = 16"

text \<open>\<^verbatim>\<open>#define MAXJID 1 << 16\<close>: defined by the source and used nowhere in it.\<close>

definition MAXJID :: int where
  "MAXJID = 65536"

text \<open>The job states \<^verbatim>\<open>UNDEF 0\<close>, \<^verbatim>\<open>FG 1\<close>, \<^verbatim>\<open>BG 2\<close>, \<^verbatim>\<open>ST 3\<close>.\<close>

datatype jstate = UNDEF | FG | BG | ST

record job_t =
  pid :: int
  jid :: int
  state :: jstate
  cmdline :: string

record shell =
  jobs :: "job_t list"
  nextjid :: int
  verbose :: bool

subsection \<open>Formatting \<^verbatim>\<open>%d\<close>\<close>

fun nat_digits :: "nat \<Rightarrow> string" where
  "nat_digits n =
     (if n < 10 then [''0123456789'' ! n]
      else nat_digits (n div 10) @ [''0123456789'' ! (n mod 10)])"

declare nat_digits.simps [simp del]

definition fmt_d :: "int \<Rightarrow> string" where
  "fmt_d k = (if k < 0 then CHR ''-'' # nat_digits (nat (- k)) else nat_digits (nat k))"

subsection \<open>Helper routines that manipulate the job list\<close>

text \<open>\<^verbatim>\<open>clearjob\<close> writes these four fields into the slot it is given.\<close>

definition clearjob :: job_t where
  "clearjob = \<lparr>pid = 0, jid = 0, state = UNDEF, cmdline = []\<rparr>"

function initjobs_loop :: "job_t list \<Rightarrow> nat \<Rightarrow> job_t list" where
  "initjobs_loop js i =
     (if i < MAXJOBS then initjobs_loop (js[i := clearjob]) (i + 1) else js)"
  by pat_completeness auto
termination
  by (relation "measure (\<lambda>(js, i). MAXJOBS - i)") auto

definition initjobs :: "job_t list \<Rightarrow> job_t list" where
  "initjobs js = initjobs_loop js 0"

function maxjid_loop :: "job_t list \<Rightarrow> nat \<Rightarrow> int \<Rightarrow> int" where
  "maxjid_loop js i mx =
     (if i < MAXJOBS
      then maxjid_loop js (i + 1) (if jid (js ! i) > mx then jid (js ! i) else mx)
      else mx)"
  by pat_completeness auto
termination
  by (relation "measure (\<lambda>(js, i, mx). MAXJOBS - i)") auto

definition maxjid :: "job_t list \<Rightarrow> int" where
  "maxjid js = maxjid_loop js 0 0"

text \<open>
  \<^verbatim>\<open>addjob\<close> returns the new shell, what it printed and its return value (1 or 0).
  The new slot gets \<^verbatim>\<open>nextjid++\<close>, and the counter goes back to 1 when it exceeds
  \<^verbatim>\<open>MAXJOBS\<close>.
\<close>

function addjob_loop :: "shell \<Rightarrow> int \<Rightarrow> jstate \<Rightarrow> string \<Rightarrow> nat \<Rightarrow> shell \<times> string \<times> int" where
  "addjob_loop s p st cmd i =
     (if i < MAXJOBS then
        (if pid (jobs s ! i) = 0 then
           (let j = \<lparr>pid = p, jid = nextjid s, state = st, cmdline = cmd\<rparr>;
                n = nextjid s + 1;
                n' = (if n > int MAXJOBS then 1 else n)
            in (s\<lparr>jobs := (jobs s)[i := j], nextjid := n'\<rparr>,
                (if verbose s
                 then ''Added job ['' @ fmt_d (jid j) @ ''] '' @ fmt_d (pid j) @ '' ''
                      @ cmdline j @ ''\<newline>''
                 else []),
                1))
         else addjob_loop s p st cmd (i + 1))
      else (s, ''Tried to create too many jobs\<newline>'', 0))"
  by pat_completeness auto
termination
  by (relation "measure (\<lambda>(s, p, st, cmd, i). MAXJOBS - i)") auto

definition addjob :: "shell \<Rightarrow> int \<Rightarrow> jstate \<Rightarrow> string \<Rightarrow> shell \<times> string \<times> int" where
  "addjob s p st cmd = (if p < 1 then (s, [], 0) else addjob_loop s p st cmd 0)"

function deletejob_loop :: "shell \<Rightarrow> int \<Rightarrow> nat \<Rightarrow> shell \<times> int" where
  "deletejob_loop s p i =
     (if i < MAXJOBS then
        (if pid (jobs s ! i) = p then
           (let js = (jobs s)[i := clearjob]
            in (s\<lparr>jobs := js, nextjid := maxjid js + 1\<rparr>, 1))
         else deletejob_loop s p (i + 1))
      else (s, 0))"
  by pat_completeness auto
termination
  by (relation "measure (\<lambda>(s, p, i). MAXJOBS - i)") auto

definition deletejob :: "shell \<Rightarrow> int \<Rightarrow> shell \<times> int" where
  "deletejob s p = (if p < 1 then (s, 0) else deletejob_loop s p 0)"

function fgpid_loop :: "job_t list \<Rightarrow> nat \<Rightarrow> int" where
  "fgpid_loop js i =
     (if i < MAXJOBS
      then (if state (js ! i) = FG then pid (js ! i) else fgpid_loop js (i + 1))
      else 0)"
  by pat_completeness auto
termination
  by (relation "measure (\<lambda>(js, i). MAXJOBS - i)") auto

definition fgpid :: "job_t list \<Rightarrow> int" where
  "fgpid js = fgpid_loop js 0"

text \<open>\<^verbatim>\<open>getjobpid\<close> and \<^verbatim>\<open>getjobjid\<close> return \<^verbatim>\<open>&jobs[i]\<close> or \<^verbatim>\<open>NULL\<close>.\<close>

function getjobpid_loop :: "job_t list \<Rightarrow> int \<Rightarrow> nat \<Rightarrow> nat option" where
  "getjobpid_loop js p i =
     (if i < MAXJOBS
      then (if pid (js ! i) = p then Some i else getjobpid_loop js p (i + 1))
      else None)"
  by pat_completeness auto
termination
  by (relation "measure (\<lambda>(js, p, i). MAXJOBS - i)") auto

definition getjobpid :: "job_t list \<Rightarrow> int \<Rightarrow> nat option" where
  "getjobpid js p = (if p < 1 then None else getjobpid_loop js p 0)"

function getjobjid_loop :: "job_t list \<Rightarrow> int \<Rightarrow> nat \<Rightarrow> nat option" where
  "getjobjid_loop js j i =
     (if i < MAXJOBS
      then (if jid (js ! i) = j then Some i else getjobjid_loop js j (i + 1))
      else None)"
  by pat_completeness auto
termination
  by (relation "measure (\<lambda>(js, j, i). MAXJOBS - i)") auto

definition getjobjid :: "job_t list \<Rightarrow> int \<Rightarrow> nat option" where
  "getjobjid js j = (if j < 1 then None else getjobjid_loop js j 0)"

function pid2jid_loop :: "job_t list \<Rightarrow> int \<Rightarrow> nat \<Rightarrow> int" where
  "pid2jid_loop js p i =
     (if i < MAXJOBS
      then (if pid (js ! i) = p then jid (js ! i) else pid2jid_loop js p (i + 1))
      else 0)"
  by pat_completeness auto
termination
  by (relation "measure (\<lambda>(js, p, i). MAXJOBS - i)") auto

definition pid2jid :: "job_t list \<Rightarrow> int \<Rightarrow> int" where
  "pid2jid js p = (if p < 1 then 0 else pid2jid_loop js p 0)"

function listjobs_loop :: "job_t list \<Rightarrow> nat \<Rightarrow> string" where
  "listjobs_loop js i =
     (if i < MAXJOBS then
        (if pid (js ! i) \<noteq> 0 then
           ''['' @ fmt_d (jid (js ! i)) @ ''] ('' @ fmt_d (pid (js ! i)) @ '') ''
           @ (case state (js ! i) of
                BG \<Rightarrow> ''Running ''
              | FG \<Rightarrow> ''Foreground ''
              | ST \<Rightarrow> ''Stopped ''
              | UNDEF \<Rightarrow> ''listjobs: Internal error: job['' @ fmt_d (int i) @ ''].state=0 '')
           @ cmdline (js ! i)
         else [])
        @ listjobs_loop js (i + 1)
      else [])"
  by pat_completeness auto
termination
  by (relation "measure (\<lambda>(js, i). MAXJOBS - i)") auto

definition listjobs :: "job_t list \<Rightarrow> string" where
  "listjobs js = listjobs_loop js 0"

text \<open>
  The array as the program starts: a C global is zero-initialised, and \<^verbatim>\<open>main\<close> calls
  \<^verbatim>\<open>initjobs\<close> before the first command is read. \<^verbatim>\<open>nextjid\<close> starts at 1.
\<close>

definition init_shell :: "bool \<Rightarrow> shell" where
  "init_shell v = \<lparr>jobs = initjobs (replicate MAXJOBS clearjob), nextjid = 1, verbose = v\<rparr>"

subsection \<open>The SIGCHLD handler\<close>

text \<open>
  What \<^verbatim>\<open>waitpid(-1, &status, WNOHANG | WUNTRACED)\<close> reports about a child, as the
  handler's tests \<^verbatim>\<open>WIFSTOPPED\<close>, \<^verbatim>\<open>WIFSIGNALED\<close> and \<^verbatim>\<open>WIFEXITED\<close> read it, in
  that order. \<open>WContinued\<close> stands for a status that passes none of the three tests.
\<close>

datatype wstatus = WStopped int | WSignaled int | WExited int | WContinued

text \<open>
  The body of the handler's \<^verbatim>\<open>while\<close> loop, for one child \<open>p\<close> that \<^verbatim>\<open>waitpid\<close>
  returned with status \<open>w\<close>: the new shell and what was printed.
\<close>

definition reap_one :: "shell \<Rightarrow> int \<Rightarrow> wstatus \<Rightarrow> shell \<times> string" where
  "reap_one s p w =
     (case w of
        WStopped sg \<Rightarrow>
          (case getjobpid (jobs s) p of
             Some i \<Rightarrow>
               (let js = (jobs s)[i := (jobs s ! i)\<lparr>state := ST\<rparr>]
                in (s\<lparr>jobs := js\<rparr>,
                    ''Job ['' @ fmt_d (jid (js ! i)) @ ''] ('' @ fmt_d (pid (js ! i))
                    @ '') stopped by signal '' @ fmt_d sg @ ''\<newline>''))
           | None \<Rightarrow> (s, []))
      | WSignaled sg \<Rightarrow>
          (case getjobpid (jobs s) p of
             Some i \<Rightarrow>
               (fst (deletejob s p),
                ''Job ['' @ fmt_d (jid (jobs s ! i)) @ ''] ('' @ fmt_d (pid (jobs s ! i))
                @ '') terminated by signal '' @ fmt_d sg @ ''\<newline>'')
           | None \<Rightarrow> (s, []))
      | WExited c \<Rightarrow> (fst (deletejob s p), [])
      | WContinued \<Rightarrow> (s, []))"

text \<open>
  One invocation of the handler. The list holds what the successive calls of
  \<^verbatim>\<open>waitpid\<close> return; the loop ends at the first pid that is not positive, which is also
  what the end of the list stands for.
\<close>

fun sigchld_handler :: "shell \<Rightarrow> (int \<times> wstatus) list \<Rightarrow> shell \<times> string" where
  "sigchld_handler s [] = (s, [])"
| "sigchld_handler s ((p, w) # rest) =
     (if p > 0 then
        (case reap_one s p w of
           (s1, o1) \<Rightarrow> (case sigchld_handler s1 rest of (s2, o2) \<Rightarrow> (s2, o1 @ o2)))
      else (s, []))"

subsection \<open>Signals sent by the shell\<close>

datatype signal = SIGINT | SIGTSTP | SIGCONT

text \<open>
  \<^verbatim>\<open>sigint_handler\<close> and \<^verbatim>\<open>sigtstp_handler\<close> read the table and call \<^verbatim>\<open>kill\<close>; the
  result is the list of \<^verbatim>\<open>kill(target, signal)\<close> calls made.
\<close>

definition sigint_handler :: "shell \<Rightarrow> (int \<times> signal) list" where
  "sigint_handler s = (let fg_pid = fgpid (jobs s) in if fg_pid \<noteq> 0 then [(- fg_pid, SIGINT)] else [])"

definition sigtstp_handler :: "shell \<Rightarrow> (int \<times> signal) list" where
  "sigtstp_handler s = (let fg_pid = fgpid (jobs s) in if fg_pid \<noteq> 0 then [(- fg_pid, SIGTSTP)] else [])"

subsection \<open>parseline\<close>

text \<open>
  A C string is the list of its characters before the terminating NUL. \<open>token b\<close> is the
  string at \<^verbatim>\<open>buf\<close> once \<^verbatim>\<open>*delim = '\0'\<close> is written at the first space, and
  \<open>after_token b\<close> is \<^verbatim>\<open>delim + 1\<close>, or the end of the string when \<^verbatim>\<open>strchr\<close> finds no
  space.
\<close>

definition skip_spaces :: "string \<Rightarrow> string" where
  "skip_spaces b = dropWhile (\<lambda>c. c = CHR '' '') b"

definition token :: "string \<Rightarrow> string" where
  "token b = takeWhile (\<lambda>c. c \<noteq> CHR '' '') b"

definition after_token :: "string \<Rightarrow> string" where
  "after_token b = drop 1 (dropWhile (\<lambda>c. c \<noteq> CHR '' '') b)"

record pstate =
  p_argv :: "string list"
  p_infile :: "string option"
  p_outfile :: "string option"
  p_errfile :: "string option"
  p_append :: bool

function parse_loop :: "string \<Rightarrow> pstate \<Rightarrow> pstate" where
  "parse_loop buf st =
     (if skip_spaces buf = [] then st
      else if take 2 (skip_spaces buf) = ''2>'' then
        parse_loop (after_token (skip_spaces (drop 2 (skip_spaces buf))))
          (st\<lparr>p_errfile := Some (token (skip_spaces (drop 2 (skip_spaces buf))))\<rparr>)
      else if hd (skip_spaces buf) = CHR ''<'' then
        parse_loop (after_token (skip_spaces (tl (skip_spaces buf))))
          (st\<lparr>p_infile := Some (token (skip_spaces (tl (skip_spaces buf))))\<rparr>)
      else if hd (skip_spaces buf) = CHR ''>'' then
        (if take 1 (tl (skip_spaces buf)) = ''>'' then
           parse_loop (after_token (skip_spaces (drop 2 (skip_spaces buf))))
             (st\<lparr>p_outfile := Some (token (skip_spaces (drop 2 (skip_spaces buf)))),
                 p_append := True\<rparr>)
         else
           parse_loop (after_token (skip_spaces (tl (skip_spaces buf))))
             (st\<lparr>p_outfile := Some (token (skip_spaces (tl (skip_spaces buf))))\<rparr>))
      else
        parse_loop (after_token (skip_spaces buf))
          (st\<lparr>p_argv := p_argv st @ [token (skip_spaces buf)]\<rparr>))"
  by pat_completeness auto
termination
proof -
  have sk: "length (skip_spaces b) \<le> length b" for b
    by (simp add: skip_spaces_def length_dropWhile_le)
  have af: "length (after_token b) \<le> length b" for b
  proof -
    have "length (dropWhile (\<lambda>c. c \<noteq> CHR '' '') b) \<le> length b"
      by (rule length_dropWhile_le)
    then show ?thesis
      by (simp add: after_token_def)
  qed
  have redir: "length (after_token (skip_spaces (drop n (skip_spaces buf)))) < length buf"
    if "skip_spaces buf \<noteq> []" and "0 < n" for n buf
  proof -
    have "length (after_token (skip_spaces (drop n (skip_spaces buf))))
            \<le> length (drop n (skip_spaces buf))"
      using af sk le_trans by blast
    moreover have "length (drop n (skip_spaces buf)) < length (skip_spaces buf)"
      using that by simp
    ultimately show ?thesis
      using sk [of buf] by linarith
  qed
  have arg: "length (after_token (skip_spaces buf)) < length buf"
    if ne: "skip_spaces buf \<noteq> []" for buf
  proof -
    obtain c cs where b: "skip_spaces buf = c # cs"
      using ne by (cases "skip_spaces buf") auto
    have "c \<noteq> CHR '' ''"
      using hd_dropWhile [of "\<lambda>c. c = CHR '' ''" buf] ne b by (simp add: skip_spaces_def)
    moreover have "length (dropWhile (\<lambda>c. c \<noteq> CHR '' '') cs) \<le> length cs"
      by (rule length_dropWhile_le)
    ultimately have "length (after_token (skip_spaces buf)) < length (skip_spaces buf)"
      by (simp add: after_token_def b)
    then show ?thesis
      using sk [of buf] by linarith
  qed
  show ?thesis
  proof (relation "measure (\<lambda>(buf, st). length buf)", goal_cases)
    case 1
    show ?case by simp
  next
    case (2 buf st)
    then show ?case using redir [of buf 2] by simp
  next
    case (3 buf st)
    then show ?case using redir [of buf 1] by (simp add: drop_Suc)
  next
    case (4 buf st)
    then show ?case using redir [of buf 2] by simp
  next
    case (5 buf st)
    then show ?case using redir [of buf 1] by (simp add: drop_Suc)
  next
    case (6 buf st)
    then show ?case using arg [of buf] by simp
  qed
qed

text \<open>
  What \<^verbatim>\<open>parseline\<close> hands back: the argument vector (without the terminating
  \<^verbatim>\<open>NULL\<close>), the three redirection targets (\<open>None\<close> for \<^verbatim>\<open>NULL\<close>), the append flag and the
  returned background flag. The result is \<open>None\<close> where the C code has no defined
  behaviour: on the empty string (\<^verbatim>\<open>buf[strlen(buf) - 1]\<close> is \<^verbatim>\<open>buf[-1]\<close>) and when the
  line has \<^verbatim>\<open>MAXARGS\<close> or more arguments (\<^verbatim>\<open>argv[argc]\<close> is written past the array).
\<close>

record parsed =
  argv :: "string list"
  infile :: "string option"
  outfile :: "string option"
  errfile :: "string option"
  append_out :: bool
  bg :: bool

definition parseline :: "string \<Rightarrow> parsed option" where
  "parseline cmd =
     (if cmd = [] then None
      else
        (let st = parse_loop (butlast cmd @ '' '')
                    \<lparr>p_argv = [], p_infile = None, p_outfile = None, p_errfile = None,
                     p_append = False\<rparr>;
             args = p_argv st
         in if length args \<ge> MAXARGS then None
            else if args = [] then
              Some \<lparr>argv = [], infile = p_infile st, outfile = p_outfile st,
                    errfile = p_errfile st, append_out = p_append st, bg = True\<rparr>
            else if hd (last args) = CHR ''&'' then
              Some \<lparr>argv = butlast args, infile = p_infile st, outfile = p_outfile st,
                    errfile = p_errfile st, append_out = p_append st, bg = True\<rparr>
            else
              Some \<lparr>argv = args, infile = p_infile st, outfile = p_outfile st,
                    errfile = p_errfile st, append_out = p_append st, bg = False\<rparr>))"

subsection \<open>parsepipe\<close>

text \<open>
  The successive results of \<^verbatim>\<open>strtok(cmd, "|")\<close>: the maximal runs of characters other
  than \<^verbatim>\<open>|\<close>, empty runs skipped.
\<close>

function strtok_bar :: "string \<Rightarrow> string list" where
  "strtok_bar s =
     (if dropWhile (\<lambda>c. c = CHR ''|'') s = [] then []
      else takeWhile (\<lambda>c. c \<noteq> CHR ''|'') (dropWhile (\<lambda>c. c = CHR ''|'') s)
           # strtok_bar (dropWhile (\<lambda>c. c \<noteq> CHR ''|'') (dropWhile (\<lambda>c. c = CHR ''|'') s)))"
  by pat_completeness auto
termination
proof (relation "measure length", goal_cases)
  case 1
  show ?case by simp
next
  case (2 s)
  obtain c cs where b: "dropWhile (\<lambda>c. c = CHR ''|'') s = c # cs"
    using 2 by (cases "dropWhile (\<lambda>c. c = CHR ''|'') s") auto
  have "c \<noteq> CHR ''|''"
    using hd_dropWhile [of "\<lambda>c. c = CHR ''|''" s] 2 b by simp
  moreover have "length (dropWhile (\<lambda>c. c \<noteq> CHR ''|'') cs) \<le> length cs"
    by (rule length_dropWhile_le)
  moreover have "length (dropWhile (\<lambda>c. c = CHR ''|'') s) \<le> length s"
    by (rule length_dropWhile_le)
  ultimately show ?case
    by (simp add: b)
qed

definition parsepipe :: "string \<Rightarrow> string list" where
  "parsepipe cmd = strtok_bar cmd"

subsection \<open>atoi\<close>

definition isdigit :: "char \<Rightarrow> bool" where
  "isdigit c = (c \<in> set ''0123456789'')"

definition isspace :: "char \<Rightarrow> bool" where
  "isspace c = (c \<in> {CHR '' '', CHR 0x09, CHR 0x0A, CHR 0x0B, CHR 0x0C, CHR 0x0D})"

fun atoi_digits :: "string \<Rightarrow> int \<Rightarrow> int" where
  "atoi_digits [] acc = acc"
| "atoi_digits (c # cs) acc =
     (if isdigit c then atoi_digits cs (10 * acc + (int (of_char c) - 48)) else acc)"

text \<open>
  \<^verbatim>\<open>strtol(s, NULL, 10)\<close>: leading white space, an optional sign, then the longest run of
  digits; 0 when there is none. A value outside the range of \<^verbatim>\<open>long\<close> (64 bits) is replaced
  by the nearest bound.
\<close>

definition strtol10 :: "string \<Rightarrow> int" where
  "strtol10 s =
     max (- 9223372036854775808) (min 9223372036854775807
       (case dropWhile isspace s of
          [] \<Rightarrow> 0
        | c # cs \<Rightarrow>
            if c = CHR ''-'' then - atoi_digits cs 0
            else if c = CHR ''+'' then atoi_digits cs 0
            else atoi_digits (c # cs) 0))"

text \<open>
  \<^verbatim>\<open>atoi\<close> as the C library computes it: \<^verbatim>\<open>(int) strtol(s, NULL, 10)\<close>, where the
  conversion to the 32-bit \<^verbatim>\<open>int\<close> keeps the low 32 bits in two's complement.
\<close>

definition atoi :: "string \<Rightarrow> int" where
  "atoi s = (strtol10 s + 2147483648) mod 4294967296 - 2147483648"

subsection \<open>What a command does besides changing the job table\<close>

text \<open>
  What the operating system answers: the value \<^verbatim>\<open>fork\<close> returns at its \<open>k\<close>-th call
  within one \<^verbatim>\<open>eval\<close>, whether the \<^verbatim>\<open>pipe\<close> calls and the \<^verbatim>\<open>kill\<close> call succeed, and the
  text of \<^verbatim>\<open>strerror(errno)\<close> after a failure.
\<close>

record os_env =
  fork_ret :: "nat \<Rightarrow> int"
  pipe_ok :: bool
  kill_ok :: bool
  strerror :: string

text \<open>
  Where control goes when the function is done: back to the caller, into
  \<^verbatim>\<open>waitfg(pid)\<close>, or out of the shell (\<^verbatim>\<open>exit\<close>, or the forked child that goes on to
  \<^verbatim>\<open>execvp\<close>).
\<close>

datatype control = Return | WaitFg int | Exit

datatype fd = STDIN_FILENO | STDOUT_FILENO | STDERR_FILENO | Pipefd nat | Newfd

text \<open>The system calls a forked child makes, in order, when each of them succeeds.\<close>

datatype syscall =
    Sigprocmask_prev
  | Setpgid int int
  | Open_rdonly string
  | Open_wronly string bool
  | Dup2 fd fd
  | Close fd
  | Execvp "string list"

record child =
  cpid :: int
  calls :: "syscall list"

record effects =
  out :: string
  kills :: "(int \<times> signal) list"
  spawned :: "child list"
  ctl :: control

definition quiet :: effects where
  "quiet = \<lparr>out = [], kills = [], spawned = [], ctl = Return\<rparr>"

definition say :: "string \<Rightarrow> effects" where
  "say msg = \<lparr>out = msg, kills = [], spawned = [], ctl = Return\<rparr>"

subsection \<open>waitfg\<close>

text \<open>
  The condition of the loop \<^verbatim>\<open>while (pid == fgpid(jobs)) usleep(1000)\<close>. The loop itself
  is part of the transition system below: it may never end.
\<close>

definition waitfg_cond :: "shell \<Rightarrow> int \<Rightarrow> bool" where
  "waitfg_cond s p = (p = fgpid (jobs s))"

subsection \<open>do\_bgfg and builtin\_cmd\<close>

text \<open>
  The second half of \<^verbatim>\<open>do_bgfg\<close>, once \<^verbatim>\<open>job = &jobs[i]\<close> and \<^verbatim>\<open>pid = p\<close> are resolved:
  \<^verbatim>\<open>kill(-pid, SIGCONT)\<close>, then the state change. A failing \<^verbatim>\<open>kill\<close> ends the shell in
  \<^verbatim>\<open>unix_error\<close>.
\<close>

definition do_bgfg_resume :: "shell \<Rightarrow> string \<Rightarrow> nat \<Rightarrow> int \<Rightarrow> os_env \<Rightarrow> shell \<times> effects" where
  "do_bgfg_resume s a0 i p os =
     (if \<not> kill_ok os then
        (s, \<lparr>out = ''kill (SIGCONT) error: '' @ strerror os @ ''\<newline>'',
             kills = [(- p, SIGCONT)], spawned = [], ctl = Exit\<rparr>)
      else if a0 = ''fg'' then
        (let js = (jobs s)[i := (jobs s ! i)\<lparr>state := FG\<rparr>]
         in (s\<lparr>jobs := js\<rparr>,
             \<lparr>out = [], kills = [(- p, SIGCONT)], spawned = [], ctl = WaitFg (pid (js ! i))\<rparr>))
      else if a0 = ''bg'' then
        (let js = (jobs s)[i := (jobs s ! i)\<lparr>state := BG\<rparr>]
         in (s\<lparr>jobs := js\<rparr>,
             \<lparr>out = ''['' @ fmt_d (jid (js ! i)) @ ''] ('' @ fmt_d (pid (js ! i)) @ '') ''
                    @ cmdline (js ! i),
              kills = [(- p, SIGCONT)], spawned = [], ctl = Return\<rparr>))
      else (s, \<lparr>out = [], kills = [(- p, SIGCONT)], spawned = [], ctl = Return\<rparr>))"

text \<open>
  \<^verbatim>\<open>do_bgfg(argv)\<close>. \<^verbatim>\<open>builtin_cmd\<close> calls it with \<^verbatim>\<open>argv[0]\<close> equal to \<^verbatim>\<open>"bg"\<close> or
  \<^verbatim>\<open>"fg"\<close>, so the first equation is never used.
\<close>

fun do_bgfg :: "shell \<Rightarrow> string list \<Rightarrow> os_env \<Rightarrow> shell \<times> effects" where
  "do_bgfg s [] os = (s, quiet)"
| "do_bgfg s [a0] os = (s, say (a0 @ '' command requires PID or %jobid argument\<newline>''))"
| "do_bgfg s (a0 # ident # rest) os =
     (case ident of
        [] \<Rightarrow> (s, say (a0 @ '': argument must be a PID or %jobid\<newline>''))
      | c # cs \<Rightarrow>
          if c = CHR ''%'' then
            (case getjobjid (jobs s) (atoi cs) of
               None \<Rightarrow> (s, say (ident @ '': No such job\<newline>''))
             | Some i \<Rightarrow> do_bgfg_resume s a0 i (pid (jobs s ! i)) os)
          else if isdigit c then
            (case getjobpid (jobs s) (atoi ident) of
               None \<Rightarrow> (s, say (''('' @ fmt_d (atoi ident) @ ''): No such process\<newline>''))
             | Some i \<Rightarrow> do_bgfg_resume s a0 i (atoi ident) os)
          else (s, say (a0 @ '': argument must be a PID or %jobid\<newline>'')))"

text \<open>
  \<^verbatim>\<open>builtin_cmd\<close> with its return value; \<^verbatim>\<open>eval\<close> calls it only when \<^verbatim>\<open>argv[0]\<close> is not
  \<^verbatim>\<open>NULL\<close>.
\<close>

definition builtin_cmd :: "shell \<Rightarrow> string list \<Rightarrow> os_env \<Rightarrow> (shell \<times> effects) \<times> int" where
  "builtin_cmd s av os =
     (if hd av = ''quit'' then ((s, \<lparr>out = [], kills = [], spawned = [], ctl = Exit\<rparr>), 1)
      else if hd av = ''jobs'' then ((s, say (listjobs (jobs s))), 1)
      else if hd av = ''bg'' \<or> hd av = ''fg'' then (do_bgfg s av os, 1)
      else ((s, quiet), 0))"

subsection \<open>eval\<close>

definition redirect_in :: "string option \<Rightarrow> syscall list" where
  "redirect_in f =
     (case f of None \<Rightarrow> [] | Some name \<Rightarrow> [Open_rdonly name, Dup2 Newfd STDIN_FILENO, Close Newfd])"

definition redirect_out :: "string option \<Rightarrow> bool \<Rightarrow> fd \<Rightarrow> syscall list" where
  "redirect_out f app target =
     (case f of None \<Rightarrow> [] | Some name \<Rightarrow> [Open_wronly name app, Dup2 Newfd target, Close Newfd])"

text \<open>The child of the single-command branch.\<close>

definition child_single :: "parsed \<Rightarrow> syscall list" where
  "child_single pr =
     [Sigprocmask_prev, Setpgid 0 0]
     @ redirect_in (infile pr)
     @ redirect_out (outfile pr) (append_out pr) STDOUT_FILENO
     @ redirect_out (errfile pr) False STDERR_FILENO
     @ [Execvp (argv pr)]"

text \<open>The child that runs stage \<open>i\<close> of a pipeline of \<open>n\<close> commands.\<close>

definition child_stage :: "parsed \<Rightarrow> nat \<Rightarrow> nat \<Rightarrow> syscall list" where
  "child_stage pr i n =
     (if i > 0 then [Dup2 (Pipefd ((i - 1) * 2)) STDIN_FILENO] else [])
     @ (if i < n - 1 then [Dup2 (Pipefd (i * 2 + 1)) STDOUT_FILENO] else [])
     @ map (\<lambda>j. Close (Pipefd j)) [0 ..< 2 * (n - 1)]
     @ (if i = 0 then redirect_in (infile pr) else [])
     @ (if i = n - 1 then redirect_out (outfile pr) (append_out pr) STDOUT_FILENO else [])
     @ [Execvp (argv pr)]"

text \<open>
  The loop \<^verbatim>\<open>for (i = 0; i < num_commands; i++)\<close> that forks the stages, over the
  commands still to launch: the children forked and where control goes. A process in
  which \<^verbatim>\<open>fork\<close> returns 0 is the child and leaves the loop for \<^verbatim>\<open>execvp\<close>; a negative
  value is a failed \<^verbatim>\<open>fork\<close>, which the loop ignores.
\<close>

fun fork_stages :: "string list \<Rightarrow> nat \<Rightarrow> nat \<Rightarrow> os_env \<Rightarrow> (child list \<times> control) option" where
  "fork_stages [] i n os = Some ([], Return)"
| "fork_stages (c # cs) i n os =
     (case parseline c of
        None \<Rightarrow> None
      | Some pr \<Rightarrow>
          if fork_ret os i = 0 then Some ([], Exit)
          else
            (case fork_stages cs (i + 1) n os of
               None \<Rightarrow> None
             | Some (chs, k) \<Rightarrow>
                 Some ((if fork_ret os i > 0
                        then [\<lparr>cpid = fork_ret os i, calls = child_stage pr i n\<rparr>]
                        else []) @ chs, k)))"

text \<open>
  \<^verbatim>\<open>eval(cmdline)\<close> in the shell process. \<open>None\<close> is undefined behaviour of the C code:
  a line that does not fit \<^verbatim>\<open>buf\<close>, \<^verbatim>\<open>MAXARGS\<close> or more pipeline commands, or a
  \<^verbatim>\<open>parseline\<close> without defined behaviour. The pipeline branch ends with one \<^verbatim>\<open>wait\<close> per
  command, which reaps children and touches no variable of the shell.
\<close>

definition eval :: "shell \<Rightarrow> string \<Rightarrow> os_env \<Rightarrow> (shell \<times> effects) option" where
  "eval s cmd os =
     (if length cmd \<ge> MAXLINE then None
      else if length (parsepipe cmd) \<ge> MAXARGS then None
      else if length (parsepipe cmd) = 1 then
        (case parseline cmd of
           None \<Rightarrow> None
         | Some pr \<Rightarrow>
             if argv pr = [] then Some (s, quiet)
             else if snd (builtin_cmd s (argv pr) os) \<noteq> 0 then Some (fst (builtin_cmd s (argv pr) os))
             else if fork_ret os 0 = 0 then
               Some (s, \<lparr>out = [], kills = [], spawned = [], ctl = Exit\<rparr>)
             else
               (case addjob s (fork_ret os 0) (if bg pr then BG else FG) cmd of
                  (s1, o1, r) \<Rightarrow>
                    Some (s1,
                      \<lparr>out = (if bg pr
                              then o1 @ ''['' @ fmt_d (pid2jid (jobs s1) (fork_ret os 0)) @ ''] (''
                                   @ fmt_d (fork_ret os 0) @ '') '' @ cmd
                              else o1),
                       kills = [],
                       spawned = (if fork_ret os 0 > 0
                                  then [\<lparr>cpid = fork_ret os 0, calls = child_single pr\<rparr>]
                                  else []),
                       ctl = (if bg pr then Return else WaitFg (fork_ret os 0))\<rparr>)))
      else if length (parsepipe cmd) > 1 \<and> \<not> pipe_ok os then
        Some (s, \<lparr>out = ''pipe error: '' @ strerror os @ ''\<newline>'', kills = [], spawned = [],
                  ctl = Exit\<rparr>)
      else
        (case fork_stages (parsepipe cmd) 0 (length (parsepipe cmd)) os of
           None \<Rightarrow> None
         | Some (chs, k) \<Rightarrow> Some (s, \<lparr>out = [], kills = [], spawned = chs, ctl = k\<rparr>)))"

subsection \<open>Process groups\<close>

text \<open>
  The process group of a forked child after its calls, as the operating system defines
  it: a child starts in the process group of its parent, and \<^verbatim>\<open>setpgid(0, 0)\<close> puts the
  calling process into a new group whose id is its own pid.
\<close>

definition pgid_of_child :: "int \<Rightarrow> child \<Rightarrow> int" where
  "pgid_of_child parent_pgid c =
     foldl (\<lambda>g call. case call of
                       Setpgid a b \<Rightarrow> (if a = 0 then (if b = 0 then cpid c else b) else g)
                     | _ \<Rightarrow> g)
           parent_pgid (calls c)"

subsection \<open>The shell as a transition system\<close>

text \<open>
  The handler of \<^verbatim>\<open>SIGCHLD\<close> interrupts the main flow wherever the signal is not blocked.
  \<^verbatim>\<open>eval\<close> blocks it from before \<^verbatim>\<open>fork\<close> until after \<^verbatim>\<open>addjob\<close>; \<^verbatim>\<open>do_bgfg\<close> and
  \<^verbatim>\<open>waitfg\<close> never block it. So the main flow is followed through \<^verbatim>\<open>do_bgfg\<close> and
  \<^verbatim>\<open>waitfg\<close> one access to the job table at a time, and a handler may run between any
  two of these accesses. Where the main flow stands:
  \<^item> \<open>Prompt\<close>: in the loop of \<^verbatim>\<open>main\<close>, before a line is read;
  \<^item> \<open>Bgfg_jid a0 j i\<close>: in \<^verbatim>\<open>do_bgfg\<close> with \<^verbatim>\<open>argv[0] = a0\<close>, in the loop of
    \<^verbatim>\<open>getjobjid(jobs, j)\<close> before it reads \<^verbatim>\<open>jobs[i].jid\<close>;
  \<^item> \<open>Bgfg_pid a0 p i\<close>: the same in the loop of \<^verbatim>\<open>getjobpid(jobs, p)\<close>, before it reads
    \<^verbatim>\<open>jobs[i].pid\<close>;
  \<^item> \<open>Bgfg_job a0 i\<close>: \<^verbatim>\<open>job = &jobs[i]\<close> was found by its job number, before
    \<^verbatim>\<open>pid = job->pid\<close>;
  \<^item> \<open>Bgfg_kill a0 i p\<close>: before \<^verbatim>\<open>kill(-pid, SIGCONT)\<close>, with \<^verbatim>\<open>job = &jobs[i]\<close> and
    \<^verbatim>\<open>pid = p\<close>;
  \<^item> \<open>Bgfg_state a0 i\<close>: \<^verbatim>\<open>kill\<close> has succeeded, before \<^verbatim>\<open>job->state\<close> is written;
  \<^item> \<open>Bgfg_wait i\<close>: \<^verbatim>\<open>job->state = FG\<close> is written, before \<^verbatim>\<open>waitfg(job->pid)\<close> reads
    \<^verbatim>\<open>job->pid\<close>;
  \<^item> \<open>Waitfg p i\<close>: in \<^verbatim>\<open>waitfg(p)\<close>, in the loop of \<^verbatim>\<open>fgpid\<close> before it reads
    \<^verbatim>\<open>jobs[i].state\<close>;
  \<^item> \<open>Waitfg_pid p i\<close>: \<^verbatim>\<open>fgpid\<close> has read \<^verbatim>\<open>jobs[i].state == FG\<close>, before it reads
    \<^verbatim>\<open>jobs[i].pid\<close>;
  \<^item> \<open>Exited\<close>: the process has left the shell.
  The functions that only read the table to print it (\<^verbatim>\<open>listjobs\<close>, \<^verbatim>\<open>pid2jid\<close>, the
  \<^verbatim>\<open>printf\<close> of \<^verbatim>\<open>bg\<close>) write nothing and decide nothing, and stay inside one step.
\<close>

datatype pc =
    Prompt
  | Bgfg_jid string int nat
  | Bgfg_pid string int nat
  | Bgfg_job string nat
  | Bgfg_kill string nat int
  | Bgfg_state string nat
  | Bgfg_wait nat
  | Waitfg int nat
  | Waitfg_pid int nat
  | Exited

record sys =
  sh :: shell
  md :: pc

text \<open>
  The argument vector when the line is one that \<^verbatim>\<open>eval\<close> hands to \<^verbatim>\<open>do_bgfg\<close>: a single
  command whose first argument is \<^verbatim>\<open>bg\<close> or \<^verbatim>\<open>fg\<close>.
\<close>

definition bgfg_args :: "string \<Rightarrow> string list option" where
  "bgfg_args line =
     (if length line \<ge> MAXLINE \<or> length (parsepipe line) \<noteq> 1 then None
      else
        (case parseline line of
           None \<Rightarrow> None
         | Some pr \<Rightarrow>
             if argv pr \<noteq> [] \<and> (hd (argv pr) = ''bg'' \<or> hd (argv pr) = ''fg'')
             then Some (argv pr) else None))"

text \<open>
  \<^verbatim>\<open>do_bgfg\<close> up to the first reading of the table: where the main flow stands after the
  tests of \<^verbatim>\<open>argv[1]\<close> and the guards \<^verbatim>\<open>jid < 1\<close> and \<^verbatim>\<open>pid < 1\<close> of the two lookups. The
  branches that print an error return to the prompt.
\<close>

fun do_bgfg_enter :: "string list \<Rightarrow> pc" where
  "do_bgfg_enter [] = Prompt"
| "do_bgfg_enter [a0] = Prompt"
| "do_bgfg_enter (a0 # ident # rest) =
     (case ident of
        [] \<Rightarrow> Prompt
      | c # cs \<Rightarrow>
          if c = CHR ''%'' then
            (if atoi cs < 1 then Prompt else Bgfg_jid a0 (atoi cs) 0)
          else if isdigit c then
            (if atoi ident < 1 then Prompt else Bgfg_pid a0 (atoi ident) 0)
          else Prompt)"

text \<open>
  The next step of the main flow inside \<^verbatim>\<open>do_bgfg\<close> and \<^verbatim>\<open>waitfg\<close>. The flag is what
  \<^verbatim>\<open>kill\<close> answers when the step is the call of \<^verbatim>\<open>kill\<close>; a failing \<^verbatim>\<open>kill\<close> ends the shell
  in \<^verbatim>\<open>unix_error\<close>. When \<^verbatim>\<open>fgpid\<close> returns the pid waited for, \<^verbatim>\<open>waitfg\<close> sleeps and calls
  \<^verbatim>\<open>fgpid\<close> again.
\<close>

fun tick :: "shell \<Rightarrow> pc \<Rightarrow> bool \<Rightarrow> shell \<times> pc" where
  "tick s Prompt k = (s, Prompt)"
| "tick s (Bgfg_jid a0 j i) k =
     (s, if i < MAXJOBS
         then (if jid (jobs s ! i) = j then Bgfg_job a0 i else Bgfg_jid a0 j (i + 1))
         else Prompt)"
| "tick s (Bgfg_pid a0 p i) k =
     (s, if i < MAXJOBS
         then (if pid (jobs s ! i) = p then Bgfg_kill a0 i p else Bgfg_pid a0 p (i + 1))
         else Prompt)"
| "tick s (Bgfg_job a0 i) k = (s, Bgfg_kill a0 i (pid (jobs s ! i)))"
| "tick s (Bgfg_kill a0 i p) k = (s, if k then Bgfg_state a0 i else Exited)"
| "tick s (Bgfg_state a0 i) k =
     (if a0 = ''fg'' then (s\<lparr>jobs := (jobs s)[i := (jobs s ! i)\<lparr>state := FG\<rparr>]\<rparr>, Bgfg_wait i)
      else if a0 = ''bg'' then (s\<lparr>jobs := (jobs s)[i := (jobs s ! i)\<lparr>state := BG\<rparr>]\<rparr>, Prompt)
      else (s, Prompt))"
| "tick s (Bgfg_wait i) k = (s, Waitfg (pid (jobs s ! i)) 0)"
| "tick s (Waitfg p i) k =
     (s, if i < MAXJOBS
         then (if state (jobs s ! i) = FG then Waitfg_pid p i else Waitfg p (i + 1))
         else if p = 0 then Waitfg p 0 else Prompt)"
| "tick s (Waitfg_pid p i) k = (s, if p = pid (jobs s ! i) then Waitfg p 0 else Prompt)"
| "tick s Exited k = (s, Exited)"

text \<open>
  What happens next: the main flow reads a command line (at the prompt only), the main
  flow takes its next step, or a signal arrives and its handler runs. A line for \<^verbatim>\<open>bg\<close>
  or \<^verbatim>\<open>fg\<close> enters \<^verbatim>\<open>do_bgfg\<close>; every other line goes through \<^verbatim>\<open>eval\<close> in one step, which
  for a foreground launch ends at the call of \<^verbatim>\<open>waitfg\<close>. \<open>None\<close> is undefined behaviour
  of the C code.
\<close>

datatype event =
    Command string os_env
  | Tick bool
  | Sigchld "(int \<times> wstatus) list"
  | Sigint
  | Sigtstp

fun step :: "sys \<Rightarrow> event \<Rightarrow> sys option" where
  "step y (Command line os) =
     (if md y = Prompt then
        (case bgfg_args line of
           Some av \<Rightarrow> Some (y\<lparr>md := do_bgfg_enter av\<rparr>)
         | None \<Rightarrow>
             (case eval (sh y) line os of
                None \<Rightarrow> None
              | Some (s', fx) \<Rightarrow>
                  Some \<lparr>sh = s',
                        md = (case ctl fx of
                                Return \<Rightarrow> Prompt
                              | WaitFg p \<Rightarrow> Waitfg p 0
                              | Exit \<Rightarrow> Exited)\<rparr>))
      else Some y)"
| "step y (Tick k) = (case tick (sh y) (md y) k of (s', m') \<Rightarrow> Some \<lparr>sh = s', md = m'\<rparr>)"
| "step y (Sigchld ns) =
     (if md y = Exited then Some y else Some (y\<lparr>sh := fst (sigchld_handler (sh y) ns)\<rparr>))"
| "step y Sigint = Some y"
| "step y Sigtstp = Some y"

fun run :: "sys \<Rightarrow> event list \<Rightarrow> sys option" where
  "run y [] = Some y"
| "run y (e # es) = (case step y e of None \<Rightarrow> None | Some y' \<Rightarrow> run y' es)"

definition init_sys :: "bool \<Rightarrow> sys" where
  "init_sys v = \<lparr>sh = init_shell v, md = Prompt\<rparr>"

text \<open>The number of slots of the table whose state is \<^verbatim>\<open>FG\<close>.\<close>

definition fg_count :: "job_t list \<Rightarrow> nat" where
  "fg_count js = length (filter (\<lambda>i. state (js ! i) = FG) [0 ..< MAXJOBS])"

subsection \<open>Notions used to state the properties\<close>

text \<open>Every slot of the array is in use: no \<^verbatim>\<open>jobs[i].pid\<close> is 0.\<close>

definition table_full :: "job_t list \<Rightarrow> bool" where
  "table_full js = list_all (\<lambda>i. pid (js ! i) \<noteq> 0) [0 ..< MAXJOBS]"

text \<open>
  The array has its \<^verbatim>\<open>MAXJOBS\<close> slots, and a free slot (pid 0) has job number 0, as
  \<^verbatim>\<open>clearjob\<close> leaves it.
\<close>

definition table_ok :: "job_t list \<Rightarrow> bool" where
  "table_ok js = (length js = MAXJOBS \<and> list_all (\<lambda>j. pid j \<noteq> 0 \<or> jid j = 0) js)"

text \<open>The job numbers of the slots in use, in slot order.\<close>

definition occupied_jids :: "job_t list \<Rightarrow> int list" where
  "occupied_jids js = map (\<lambda>i. jid (js ! i)) (filter (\<lambda>i. pid (js ! i) \<noteq> 0) [0 ..< MAXJOBS])"

text \<open>A sequence of calls of \<^verbatim>\<open>addjob\<close> and \<^verbatim>\<open>deletejob\<close>.\<close>

datatype table_op = Add int jstate string | Remove int

fun apply_op :: "shell \<Rightarrow> table_op \<Rightarrow> shell" where
  "apply_op s (Add p st cmd) = fst (addjob s p st cmd)"
| "apply_op s (Remove p) = fst (deletejob s p)"

definition apply_ops :: "shell \<Rightarrow> table_op list \<Rightarrow> shell" where
  "apply_ops s ops = foldl apply_op s ops"

text \<open>
  The argument tokens that the loop of \<^verbatim>\<open>parseline\<close> stores into \<^verbatim>\<open>argv\<close>, before the
  test of the last one for \<^verbatim>\<open>&\<close>.
\<close>

definition arg_tokens :: "string \<Rightarrow> string list" where
  "arg_tokens cmd =
     p_argv (parse_loop (butlast cmd @ '' '')
               \<lparr>p_argv = [], p_infile = None, p_outfile = None, p_errfile = None,
                p_append = False\<rparr>)"

text \<open>The words of a string: its maximal runs of characters other than the space.\<close>

function space_words :: "string \<Rightarrow> string list" where
  "space_words s =
     (if skip_spaces s = [] then []
      else token (skip_spaces s) # space_words (after_token (skip_spaces s)))"
  by pat_completeness auto
termination
proof (relation "measure length", goal_cases)
  case 1
  show ?case by simp
next
  case (2 s)
  obtain c cs where b: "skip_spaces s = c # cs"
    using 2 by (cases "skip_spaces s") auto
  have "c \<noteq> CHR '' ''"
    using hd_dropWhile [of "\<lambda>c. c = CHR '' ''" s] 2 b by (simp add: skip_spaces_def)
  moreover have "length (dropWhile (\<lambda>c. c \<noteq> CHR '' '') cs) \<le> length cs"
    by (rule length_dropWhile_le)
  moreover have "length (skip_spaces s) \<le> length s"
    by (simp add: skip_spaces_def length_dropWhile_le)
  ultimately show ?case
    by (simp add: after_token_def b)
qed

text \<open>
  The background flag as the specification words it: the last word of the line (its
  final newline set aside) is the bare token \<^verbatim>\<open>&\<close>.
\<close>

definition spec_background :: "string \<Rightarrow> bool" where
  "spec_background cmd =
     (space_words (butlast cmd) \<noteq> [] \<and> last (space_words (butlast cmd)) = ''&'')"

subsection \<open>Concrete tables used as examples\<close>

text \<open>Sixteen background jobs with the pids 1 to 16: the table is full.\<close>

definition sixteen_jobs :: shell where
  "sixteen_jobs =
     apply_ops (init_shell False)
       (map (\<lambda>k. Add k BG ''sleep 9 &\<newline>'') [1, 2, 3, 4, 5, 6, 7, 8, 9, 10, 11, 12, 13, 14, 15, 16])"

definition wrap_ops :: "table_op list" where
  "wrap_ops =
     map (\<lambda>k. Add k BG ''sleep 9 &\<newline>'') [1, 2, 3, 4, 5, 6, 7, 8, 9, 10, 11, 12, 13, 14, 15]
     @ [Remove 2, Add 100 BG ''sleep 9 &\<newline>'', Add 101 BG ''sleep 9 &\<newline>'']"

definition one_job :: shell where
  "one_job = apply_ops (init_shell False) [Add 100 FG ''sleep 9\<newline>'']"

text \<open>
  An operating system whose calls succeed and whose \<^verbatim>\<open>fork\<close> returns the pids 200, 201,
  and so on.
\<close>

definition os_ok :: os_env where
  "os_ok = \<lparr>fork_ret = (\<lambda>k. 200 + int k), pipe_ok = True, kill_ok = True, strerror = []\<rparr>"

text \<open>One job with pid 100, stopped by signal 20 (\<^verbatim>\<open>SIGTSTP\<close>).\<close>

definition stopped_job :: shell where
  "stopped_job = fst (reap_one one_job 100 (WStopped 20))"

subsection \<open>The invariant of the transition system\<close>

text \<open>No slot is in the state \<^verbatim>\<open>FG\<close>.\<close>

definition no_fg :: "job_t list \<Rightarrow> bool" where
  "no_fg js = (\<forall>i < MAXJOBS. state (js ! i) \<noteq> FG)"

text \<open>At most one slot is in the state \<^verbatim>\<open>FG\<close>, and such a slot holds the pid \<open>p\<close>.\<close>

definition fg_only :: "int \<Rightarrow> job_t list \<Rightarrow> bool" where
  "fg_only p js =
     ((\<forall>i < MAXJOBS. \<forall>j < MAXJOBS. state (js ! i) = FG \<and> state (js ! j) = FG \<longrightarrow> i = j)
      \<and> (\<forall>i < MAXJOBS. state (js ! i) = FG \<longrightarrow> pid (js ! i) = p))"

text \<open>No slot other than slot \<open>i\<close> is in the state \<^verbatim>\<open>FG\<close>.\<close>

definition fg_at :: "nat \<Rightarrow> job_t list \<Rightarrow> bool" where
  "fg_at i js = (\<forall>m < MAXJOBS. state (js ! m) = FG \<longrightarrow> m = i)"

text \<open>What holds of the table wherever the main flow stands.\<close>

fun pc_inv :: "pc \<Rightarrow> job_t list \<Rightarrow> bool" where
  "pc_inv Prompt js = no_fg js"
| "pc_inv (Bgfg_jid a0 j i) js = no_fg js"
| "pc_inv (Bgfg_pid a0 p i) js = no_fg js"
| "pc_inv (Bgfg_job a0 i) js = (no_fg js \<and> i < MAXJOBS)"
| "pc_inv (Bgfg_kill a0 i p) js = (no_fg js \<and> i < MAXJOBS)"
| "pc_inv (Bgfg_state a0 i) js = (no_fg js \<and> i < MAXJOBS)"
| "pc_inv (Bgfg_wait i) js = (fg_at i js \<and> i < MAXJOBS)"
| "pc_inv (Waitfg p i) js = (fg_only p js \<and> (\<forall>m < i. m < MAXJOBS \<longrightarrow> state (js ! m) \<noteq> FG))"
| "pc_inv (Waitfg_pid p i) js = (fg_only p js \<and> fg_at i js \<and> i < MAXJOBS)"
| "pc_inv Exited js = no_fg js"

definition main_inv :: "sys \<Rightarrow> bool" where
  "main_inv y = (length (jobs (sh y)) = MAXJOBS \<and> pc_inv (md y) (jobs (sh y)))"

text \<open>The same, for the control a command hands back.\<close>

definition ctl_inv :: "control \<Rightarrow> job_t list \<Rightarrow> bool" where
  "ctl_inv k js = (case k of WaitFg p \<Rightarrow> fg_only p js | _ \<Rightarrow> no_fg js)"

text \<open>
  From \<open>js\<close> to \<open>js'\<close> no slot has entered the state \<^verbatim>\<open>FG\<close>, and a slot still in it has
  kept its pid.
\<close>

definition shrinks :: "job_t list \<Rightarrow> job_t list \<Rightarrow> bool" where
  "shrinks js js' =
     (length js' = length js
      \<and> (\<forall>i < MAXJOBS. state (js' ! i) = FG \<longrightarrow> state (js ! i) = FG \<and> pid (js' ! i) = pid (js ! i)))"

text \<open>
  Where the main flow stands when a command hands back the control \<open>c\<close>, and the relation
  "from \<open>y\<close> the main flow reaches \<open>y'\<close> by steps of its own, with no handler in between".
\<close>

definition pc_of_control :: "control \<Rightarrow> pc" where
  "pc_of_control c = (case c of Return \<Rightarrow> Prompt | WaitFg p \<Rightarrow> Waitfg p 0 | Exit \<Rightarrow> Exited)"

definition ticks_to :: "bool \<Rightarrow> sys \<Rightarrow> sys \<Rightarrow> bool" where
  "ticks_to k y y' = (\<exists>n. run y (replicate n (Tick k)) = Some y')"

text \<open>
  A session: a foreground job is stopped; \<^verbatim>\<open>fg %1\<close> finds it and sends \<^verbatim>\<open>SIGCONT\<close>; the job
  exits and is reaped before \<^verbatim>\<open>do_bgfg\<close> writes \<^verbatim>\<open>job->state = FG\<close> into the slot, which
  by then is free; \<^verbatim>\<open>waitfg(0)\<close> follows.
\<close>

definition session :: "event list" where
  "session =
     [Command ''sleep 9\<newline>'' os_ok, Sigchld [(200, WStopped 20)]]
     @ replicate 17 (Tick True)
     @ [Command ''fg %1\<newline>'' os_ok, Sigint, Tick True, Tick True, Tick True,
        Sigchld [(200, WExited 0)],
        Tick True, Tick True, Tick True, Tick True]"

text \<open>
  The argument words of a line, from its words: a word that begins with \<^verbatim>\<open>2>\<close>, \<^verbatim>\<open><\<close>,
  \<^verbatim>\<open>>>\<close> or \<^verbatim>\<open>>\<close> is a redirection; its target is the rest of the word or, when nothing is
  left of the word, the next word; every other word is an argument.
\<close>

fun word_args :: "string list \<Rightarrow> string list" where
  "word_args [] = []"
| "word_args (w # ws) =
     (if take 2 w = ''2>'' then
        (if drop 2 w = [] then word_args (drop 1 ws) else word_args ws)
      else if take 1 w = ''<'' then
        (if drop 1 w = [] then word_args (drop 1 ws) else word_args ws)
      else if take 2 w = ''>>'' then
        (if drop 2 w = [] then word_args (drop 1 ws) else word_args ws)
      else if take 1 w = ''>'' then
        (if drop 1 w = [] then word_args (drop 1 ws) else word_args ws)
      else w # word_args ws)"

section \<open>Properties of the job table\<close>

declare initjobs_loop.simps [simp del] maxjid_loop.simps [simp del]
  addjob_loop.simps [simp del] deletejob_loop.simps [simp del] fgpid_loop.simps [simp del]
  getjobpid_loop.simps [simp del] getjobjid_loop.simps [simp del] pid2jid_loop.simps [simp del]
  listjobs_loop.simps [simp del] parse_loop.simps [simp del] strtok_bar.simps [simp del]
  space_words.simps [simp del]

subsection \<open>What the loops compute\<close>

lemma getjobpid_loop_Some:
  "getjobpid_loop js p i = Some k \<Longrightarrow>
     i \<le> k \<and> k < MAXJOBS \<and> pid (js ! k) = p \<and> (\<forall>m. i \<le> m \<and> m < k \<longrightarrow> pid (js ! m) \<noteq> p)"
proof (induction js p i rule: getjobpid_loop.induct)
  case (1 js p i)
  show ?case
  proof (cases "i < MAXJOBS \<and> pid (js ! i) \<noteq> p")
    case True
    then have "getjobpid_loop js p (i + 1) = Some k"
      using "1.prems" by (simp add: getjobpid_loop.simps [of js p i])
    then have ih: "i + 1 \<le> k \<and> k < MAXJOBS \<and> pid (js ! k) = p
                   \<and> (\<forall>m. i + 1 \<le> m \<and> m < k \<longrightarrow> pid (js ! m) \<noteq> p)"
      using "1.IH" True by simp
    have "\<forall>m. i \<le> m \<and> m < k \<longrightarrow> pid (js ! m) \<noteq> p"
    proof (intro allI impI)
      fix m assume "i \<le> m \<and> m < k"
      then show "pid (js ! m) \<noteq> p"
        using ih True by (cases "m = i") auto
    qed
    then show ?thesis using ih by simp
  next
    case False
    then show ?thesis
      using "1.prems" by (auto simp: getjobpid_loop.simps [of js p i] split: if_splits)
  qed
qed

lemma getjobpid_loop_None:
  "getjobpid_loop js p i = None \<Longrightarrow> i \<le> m \<Longrightarrow> m < MAXJOBS \<Longrightarrow> pid (js ! m) \<noteq> p"
proof (induction js p i rule: getjobpid_loop.induct)
  case (1 js p i)
  have lt: "i < MAXJOBS" using "1.prems" by simp
  have ne: "pid (js ! i) \<noteq> p"
    using "1.prems"(1) lt by (auto simp: getjobpid_loop.simps [of js p i] split: if_splits)
  have nxt: "getjobpid_loop js p (i + 1) = None"
    using "1.prems"(1) lt ne by (simp add: getjobpid_loop.simps [of js p i])
  show ?case
  proof (cases "m = i")
    case True
    then show ?thesis using ne by simp
  next
    case False
    then have "i + 1 \<le> m" using "1.prems" by simp
    then show ?thesis using "1.IH" lt ne nxt "1.prems" by simp
  qed
qed

lemma deletejob_loop_char:
  "deletejob_loop s p i =
     (case getjobpid_loop (jobs s) p i of
        None \<Rightarrow> (s, 0)
      | Some k \<Rightarrow> (s\<lparr>jobs := (jobs s)[k := clearjob],
                      nextjid := maxjid ((jobs s)[k := clearjob]) + 1\<rparr>, 1))"
proof (induction s p i rule: deletejob_loop.induct)
  case (1 s p i)
  show ?case
  proof (cases "i < MAXJOBS \<and> pid (jobs s ! i) \<noteq> p")
    case True
    then show ?thesis
      using "1.IH"
      by (simp add: deletejob_loop.simps [of s p i] getjobpid_loop.simps [of "jobs s" p i])
  next
    case False
    then show ?thesis
      by (auto simp: deletejob_loop.simps [of s p i] getjobpid_loop.simps [of "jobs s" p i] Let_def)
  qed
qed

lemma addjob_loop_char:
  "addjob_loop s p st cmd i =
     (case getjobpid_loop (jobs s) 0 i of
        None \<Rightarrow> (s, ''Tried to create too many jobs\<newline>'', 0)
      | Some k \<Rightarrow>
          (s\<lparr>jobs := (jobs s)[k := \<lparr>pid = p, jid = nextjid s, state = st, cmdline = cmd\<rparr>],
             nextjid := (if nextjid s + 1 > int MAXJOBS then 1 else nextjid s + 1)\<rparr>,
           (if verbose s
            then ''Added job ['' @ fmt_d (nextjid s) @ ''] '' @ fmt_d p @ '' '' @ cmd @ ''\<newline>''
            else []),
           1))"
proof (induction s p st cmd i rule: addjob_loop.induct)
  case (1 s p st cmd i)
  show ?case
  proof (cases "i < MAXJOBS \<and> pid (jobs s ! i) \<noteq> 0")
    case True
    then show ?thesis
      using "1.IH"
      by (simp add: addjob_loop.simps [of s p st cmd i] getjobpid_loop.simps [of "jobs s" 0 i])
  next
    case False
    then show ?thesis
      by (auto simp: addjob_loop.simps [of s p st cmd i] getjobpid_loop.simps [of "jobs s" 0 i] Let_def)
  qed
qed

lemma Max_insert_max:
  "finite S \<Longrightarrow> Max (insert (max a b) S) = Max (insert a (insert b S))"
  for a b :: int
  by (cases "S = {}") (simp_all add: max.assoc)

lemma maxjid_loop_Max:
  "maxjid_loop js i mx = Max (insert mx ((\<lambda>m. jid (js ! m)) ` {i ..< MAXJOBS}))"
proof (induction js i mx rule: maxjid_loop.induct)
  case (1 js i mx)
  show ?case
  proof (cases "i < MAXJOBS")
    case True
    have split: "{i ..< MAXJOBS} = insert i {i + 1 ..< MAXJOBS}"
      using True by auto
    have "(if jid (js ! i) > mx then jid (js ! i) else mx) = max mx (jid (js ! i))"
      by simp
    then have "maxjid_loop js i mx
                 = Max (insert (max mx (jid (js ! i))) ((\<lambda>m. jid (js ! m)) ` {i + 1 ..< MAXJOBS}))"
      using "1.IH" True by (simp add: maxjid_loop.simps [of js i mx])
    also have "\<dots> = Max (insert mx (insert (jid (js ! i)) ((\<lambda>m. jid (js ! m)) ` {i + 1 ..< MAXJOBS})))"
      by (rule Max_insert_max) simp
    finally show ?thesis
      by (simp add: split)
  next
    case False
    then show ?thesis
      by (simp add: maxjid_loop.simps [of js i mx])
  qed
qed

lemma table_ok_nth:
  "table_ok js \<Longrightarrow> i < MAXJOBS \<Longrightarrow> pid (js ! i) = 0 \<Longrightarrow> jid (js ! i) = 0"
  unfolding table_ok_def list_all_iff using nth_mem by fastforce

lemma maxjid_occupied:
  assumes "table_ok js"
  shows "maxjid js = Max (insert 0 (set (occupied_jids js)))"
proof -
  have "insert 0 ((\<lambda>m. jid (js ! m)) ` {0 ..< MAXJOBS}) = insert 0 (set (occupied_jids js))"
  proof (intro equalityI subsetI)
    fix x assume "x \<in> insert 0 ((\<lambda>m. jid (js ! m)) ` {0 ..< MAXJOBS})"
    then consider "x = 0" | m where "m < MAXJOBS" "x = jid (js ! m)" by auto
    then show "x \<in> insert 0 (set (occupied_jids js))"
    proof cases
      case 1
      then show ?thesis by simp
    next
      case 2
      show ?thesis
      proof (cases "pid (js ! m) = 0")
        case True
        then show ?thesis using table_ok_nth [OF assms 2(1)] 2 by simp
      next
        case False
        then show ?thesis using 2 by (auto simp: occupied_jids_def)
      qed
    qed
  next
    fix x assume "x \<in> insert 0 (set (occupied_jids js))"
    then show "x \<in> insert 0 ((\<lambda>m. jid (js ! m)) ` {0 ..< MAXJOBS})"
      by (auto simp: occupied_jids_def)
  qed
  then show ?thesis
    by (simp add: maxjid_def maxjid_loop_Max)
qed

lemma table_ok_clear: "table_ok js \<Longrightarrow> table_ok (js[k := clearjob])"
  unfolding table_ok_def list_all_iff
  by (auto simp: clearjob_def dest!: set_update_subset_insert [THEN subsetD])

lemma table_ok_add: "table_ok js \<Longrightarrow> p \<noteq> 0 \<Longrightarrow> table_ok (js[k := \<lparr>pid = p, jid = n, state = st, cmdline = cmd\<rparr>])"
  unfolding table_ok_def list_all_iff
  by (auto dest!: set_update_subset_insert [THEN subsetD])

lemma table_ok_apply_op:
  assumes ok: "table_ok (jobs s)"
  shows "table_ok (jobs (apply_op s x))"
proof (cases x)
  case (Add p st cmd)
  show ?thesis
  proof (cases "p < 1")
    case True
    then show ?thesis using Add ok by (simp add: addjob_def)
  next
    case False
    show ?thesis
    proof (cases "getjobpid_loop (jobs s) 0 0")
      case None
      then show ?thesis using Add False ok by (simp add: addjob_def addjob_loop_char)
    next
      case (Some k)
      have "p \<noteq> 0" using False by simp
      then show ?thesis
        using Add False Some table_ok_add [OF ok] by (simp add: addjob_def addjob_loop_char)
    qed
  qed
next
  case (Remove p)
  show ?thesis
  proof (cases "p < 1")
    case True
    then show ?thesis using Remove ok by (simp add: deletejob_def)
  next
    case False
    then show ?thesis
      using Remove ok table_ok_clear [OF ok]
      by (simp add: deletejob_def deletejob_loop_char split: option.splits)
  qed
qed

lemma replicate_update_same: "(replicate n x)[i := x] = replicate n x"
proof (cases "i < n")
  case True
  then have "(replicate n x)[i := x] = (replicate n x)[i := replicate n x ! i]" by simp
  then show ?thesis by (simp only: list_update_id)
next
  case False
  then show ?thesis by (intro list_update_beyond) simp
qed

lemma initjobs_loop_replicate:
  "initjobs_loop (replicate n clearjob) i = replicate n clearjob"
proof (induction "replicate n clearjob" i rule: initjobs_loop.induct)
  case (1 i)
  then show ?case
    by (simp add: initjobs_loop.simps [of "replicate n clearjob" i] replicate_update_same)
qed

lemma init_jobs: "jobs (init_shell v) = replicate MAXJOBS clearjob"
  by (simp add: init_shell_def initjobs_def initjobs_loop_replicate)

text \<open>Every table that calls of \<^verbatim>\<open>addjob\<close> and \<^verbatim>\<open>deletejob\<close> reach from the start is of that kind.\<close>

lemma table_ok_apply_ops: "table_ok (jobs s) \<Longrightarrow> table_ok (jobs (apply_ops s ops))"
  unfolding apply_ops_def
  by (induction ops arbitrary: s) (simp_all add: table_ok_apply_op)

lemma table_ok_reachable: "table_ok (jobs (apply_ops (init_shell v) ops))"
proof -
  have "table_ok (jobs (init_shell v))"
    by (simp add: init_jobs table_ok_def clearjob_def list_all_iff)
  then show ?thesis
    by (rule table_ok_apply_ops)
qed

lemma getjobpid_Some:
  "getjobpid js p = Some i \<Longrightarrow> 1 \<le> p \<and> i < MAXJOBS \<and> pid (js ! i) = p \<and> getjobpid_loop js p 0 = Some i"
  using getjobpid_loop_Some [of js p 0 i] by (auto simp: getjobpid_def split: if_splits)

lemma deletejob_found:
  "getjobpid (jobs s) p = Some i \<Longrightarrow>
     deletejob s p = (s\<lparr>jobs := (jobs s)[i := clearjob],
                        nextjid := maxjid ((jobs s)[i := clearjob]) + 1\<rparr>, 1)"
  using getjobpid_Some [of "jobs s" p i] by (simp add: deletejob_def deletejob_loop_char)

lemma deletejob_not_found: "getjobpid (jobs s) p = None \<Longrightarrow> deletejob s p = (s, 0)"
  by (auto simp: deletejob_def getjobpid_def deletejob_loop_char split: if_splits)

lemma deletejob_result:
  "deletejob s p = (s', 1) \<Longrightarrow>
     \<exists>i. getjobpid (jobs s) p = Some i
          \<and> s' = s\<lparr>jobs := (jobs s)[i := clearjob], nextjid := maxjid ((jobs s)[i := clearjob]) + 1\<rparr>"
proof (cases "getjobpid (jobs s) p")
  case None
  assume "deletejob s p = (s', 1)"
  then show ?thesis using deletejob_not_found [OF None] by simp
next
  case (Some i)
  assume "deletejob s p = (s', 1)"
  then show ?thesis using deletejob_found [OF Some] Some by auto
qed

lemma addjob_result:
  "addjob s p st cmd = (s', msg, 1) \<Longrightarrow>
     1 \<le> p \<and> (\<exists>i. getjobpid_loop (jobs s) 0 0 = Some i
          \<and> s' = s\<lparr>jobs := (jobs s)[i := \<lparr>pid = p, jid = nextjid s, state = st, cmdline = cmd\<rparr>],
                    nextjid := (if nextjid s + 1 > int MAXJOBS then 1 else nextjid s + 1)\<rparr>)"
  by (auto simp: addjob_def addjob_loop_char split: if_splits option.splits)

lemma table_full_nth: "table_full js \<Longrightarrow> i < MAXJOBS \<Longrightarrow> pid (js ! i) \<noteq> 0"
  by (simp add: table_full_def list_all_iff)

lemma getjobpid_loop_full: "table_full js \<Longrightarrow> getjobpid_loop js 0 i = None"
proof (cases "getjobpid_loop js 0 i")
  case None
  then show ?thesis by simp
next
  case (Some k)
  assume "table_full js"
  then show ?thesis
    using getjobpid_loop_Some [OF Some] table_full_nth by blast
qed

subsection \<open>The guard on the pid\<close>

text \<open>
  Claim C10. For every pid below 1 and every state of the table, \<^verbatim>\<open>addjob\<close> and
  \<^verbatim>\<open>deletejob\<close> both return 0, print nothing, and leave every slot and \<^verbatim>\<open>nextjid\<close> as
  they were.
\<close>

theorem addjob_deletejob_bad_pid:
  "p < 1 \<Longrightarrow> addjob s p st cmd = (s, [], 0) \<and> deletejob s p = (s, 0)"
  by (simp add: addjob_def deletejob_def)

theorem addjob_deletejob_bad_pid_witness:
  "(-1 :: int) < 1 \<and> addjob (init_shell False) (-1) FG ''ls\<newline>'' = (init_shell False, [], 0)
     \<and> deletejob (init_shell False) (-1) = (init_shell False, 0)"
  using addjob_deletejob_bad_pid [of "-1" "init_shell False" FG "''ls\<newline>''"] by simp

subsection \<open>A full table\<close>

text \<open>
  Claim C4, as amended. On a table with no free slot, \<^verbatim>\<open>addjob\<close> with a pid of at least 1
  returns 0, prints \<^verbatim>\<open>Tried to create too many jobs\<close>, and leaves every slot and
  \<^verbatim>\<open>nextjid\<close> as they were.
\<close>

theorem addjob_table_full:
  "table_full (jobs s) \<Longrightarrow> 1 \<le> p \<Longrightarrow>
     addjob s p st cmd = (s, ''Tried to create too many jobs\<newline>'', 0)"
  by (simp add: addjob_def addjob_loop_char getjobpid_loop_full)

theorem addjob_table_full_witness:
  "table_full (jobs sixteen_jobs) \<and> (1 :: int) \<le> 17
     \<and> addjob sixteen_jobs 17 FG ''ls\<newline>''
         = (sixteen_jobs, ''Tried to create too many jobs\<newline>'', 0)"
proof -
  have full: "table_full (jobs sixteen_jobs)"
    unfolding sixteen_jobs_def by code_simp
  show ?thesis
    using full addjob_table_full [OF full, of 17 FG "''ls\<newline>''"] by simp
qed

text \<open>
  Claim C4 as stated does not hold for every pid: with the pid -1, which \<^verbatim>\<open>eval\<close> passes
  on when \<^verbatim>\<open>fork\<close> fails, the guard on the pid returns 0 before the table is scanned and
  nothing is printed.
\<close>

theorem addjob_table_full_silent_counterexample:
  "table_full (jobs sixteen_jobs)
     \<and> addjob sixteen_jobs (- 1) FG ''ls\<newline>'' = (sixteen_jobs, [], 0)
     \<and> fst (snd (addjob sixteen_jobs (- 1) FG ''ls\<newline>'')) \<noteq> ''Tried to create too many jobs\<newline>''"
proof -
  have full: "table_full (jobs sixteen_jobs)"
    unfolding sixteen_jobs_def by code_simp
  then show ?thesis
    by (simp add: addjob_def)
qed

subsection \<open>The next job number\<close>

text \<open>
  Claim C5, as amended. On a table whose free slots carry the job number 0, a successful
  \<^verbatim>\<open>deletejob\<close> sets \<^verbatim>\<open>nextjid\<close> to the largest job number of the slots still in use plus
  1 (to 1 when none is in use), with no wrap; a successful \<^verbatim>\<open>addjob\<close> fills a free slot,
  gives it the value of \<^verbatim>\<open>nextjid\<close> as its job number, and then sets \<^verbatim>\<open>nextjid\<close> to that
  value plus 1, or to 1 when that exceeds \<^verbatim>\<open>MAXJOBS\<close>.
\<close>

theorem nextjid_recomputed:
  "table_ok (jobs s) \<longrightarrow>
     (deletejob s p = (s', 1) \<longrightarrow>
        nextjid s' = Max (insert 0 (set (occupied_jids (jobs s')))) + 1)
     \<and> (addjob s q st cmd = (s'', msg, 1) \<longrightarrow>
          (\<exists>i < MAXJOBS. pid (jobs s ! i) = 0
              \<and> jobs s'' = (jobs s)[i := \<lparr>pid = q, jid = nextjid s, state = st, cmdline = cmd\<rparr>]
              \<and> jid (jobs s'' ! i) = nextjid s)
          \<and> nextjid s'' = (if nextjid s + 1 > int MAXJOBS then 1 else nextjid s + 1))"
proof (intro impI conjI)
  assume ok: "table_ok (jobs s)" and del: "deletejob s p = (s', 1)"
  obtain i where s': "s' = s\<lparr>jobs := (jobs s)[i := clearjob],
                              nextjid := maxjid ((jobs s)[i := clearjob]) + 1\<rparr>"
    using deletejob_result [OF del] by blast
  have "table_ok ((jobs s)[i := clearjob])"
    using ok by (rule table_ok_clear)
  then show "nextjid s' = Max (insert 0 (set (occupied_jids (jobs s')))) + 1"
    by (simp add: s' maxjid_occupied)
next
  assume ok: "table_ok (jobs s)" and add: "addjob s q st cmd = (s'', msg, 1)"
  obtain i where i: "getjobpid_loop (jobs s) 0 0 = Some i"
    and s'': "s'' = s\<lparr>jobs := (jobs s)[i := \<lparr>pid = q, jid = nextjid s, state = st, cmdline = cmd\<rparr>],
                    nextjid := (if nextjid s + 1 > int MAXJOBS then 1 else nextjid s + 1)\<rparr>"
    using addjob_result [OF add] by blast
  have lt: "i < MAXJOBS" and free: "pid (jobs s ! i) = 0"
    using getjobpid_loop_Some [OF i] by simp_all
  have len: "length (jobs s) = MAXJOBS"
    using ok by (simp add: table_ok_def)
  show "\<exists>i < MAXJOBS. pid (jobs s ! i) = 0
          \<and> jobs s'' = (jobs s)[i := \<lparr>pid = q, jid = nextjid s, state = st, cmdline = cmd\<rparr>]
          \<and> jid (jobs s'' ! i) = nextjid s"
    using lt free len by (intro exI [of _ i]) (simp add: s'')
  show "nextjid s'' = (if nextjid s + 1 > int MAXJOBS then 1 else nextjid s + 1)"
    by (simp add: s'')
qed

theorem nextjid_recomputed_witness:
  "table_ok (jobs sixteen_jobs) \<and> deletejob sixteen_jobs 3 = (fst (deletejob sixteen_jobs 3), 1)
     \<and> nextjid (fst (deletejob sixteen_jobs 3)) = 17
     \<and> addjob one_job 7 BG ''ls &\<newline>'' = (fst (addjob one_job 7 BG ''ls &\<newline>''), [], 1)
     \<and> nextjid (fst (addjob one_job 7 BG ''ls &\<newline>'')) = 3"
proof -
  have ok: "table_ok (jobs sixteen_jobs)"
    unfolding sixteen_jobs_def by code_simp
  have del: "deletejob sixteen_jobs 3 = (fst (deletejob sixteen_jobs 3), 1)"
    unfolding sixteen_jobs_def by code_simp
  have mx: "Max (insert 0 (set (occupied_jids (jobs (fst (deletejob sixteen_jobs 3)))))) = 16"
    unfolding sixteen_jobs_def by code_simp
  have ok1: "table_ok (jobs one_job)"
    unfolding one_job_def by code_simp
  have add: "addjob one_job 7 BG ''ls &\<newline>'' = (fst (addjob one_job 7 BG ''ls &\<newline>''), [], 1)"
    unfolding one_job_def by code_simp
  have nj: "nextjid one_job = 2"
    unfolding one_job_def by code_simp
  show ?thesis
    using ok del mx add nj
      nextjid_recomputed [of sixteen_jobs 3 "fst (deletejob sixteen_jobs 3)"]
      nextjid_recomputed [of one_job _ _ 7 BG "''ls &\<newline>''" "fst (addjob one_job 7 BG ''ls &\<newline>'')" "[]"]
      ok1
    by (simp add: MAXJOBS_def)
qed

text \<open>
  Claim C5 as stated does not hold: after sixteen jobs with the job numbers 1 to 16,
  deleting the job with pid 1 leaves 16 as the largest job number, and \<^verbatim>\<open>nextjid\<close> becomes
  17, not 1.
\<close>

theorem nextjid_no_wrap_counterexample:
  "snd (deletejob sixteen_jobs 1) = 1
     \<and> Max (insert 0 (set (occupied_jids (jobs (fst (deletejob sixteen_jobs 1)))))) + 1 > int MAXJOBS
     \<and> nextjid (fst (deletejob sixteen_jobs 1)) = 17
     \<and> nextjid (fst (deletejob sixteen_jobs 1)) \<noteq> 1"
  unfolding sixteen_jobs_def by code_simp

subsection \<open>Job numbers after the counter wraps\<close>

text \<open>
  Claim C2 at a failing input. Fifteen jobs get the job numbers 1 to 15; the job with
  pid 2 is deleted, so \<^verbatim>\<open>nextjid\<close> is 16; the job with pid 100 gets 16 and \<^verbatim>\<open>addjob\<close>
  resets \<^verbatim>\<open>nextjid\<close> to 1; the job with pid 101 then gets the job number 1, which the job
  with pid 1 still holds.
\<close>

theorem duplicate_jid_after_wrap:
  "map (\<lambda>j. (pid j, jid j)) (jobs (apply_ops (init_shell False) wrap_ops))
     = [(1, 1), (100, 16), (3, 3), (4, 4), (5, 5), (6, 6), (7, 7), (8, 8), (9, 9), (10, 10),
        (11, 11), (12, 12), (13, 13), (14, 14), (15, 15), (101, 1)]
   \<and> \<not> distinct (occupied_jids (jobs (apply_ops (init_shell False) wrap_ops)))"
  unfolding wrap_ops_def by code_simp

section \<open>The SIGCHLD handler\<close>

text \<open>The body of the handler's loop, for one child.\<close>

lemma reap_one_effect:
  "length (jobs s) = MAXJOBS \<longrightarrow>
   (getjobpid (jobs s) p = Some i \<longrightarrow>
      reap_one s p (WStopped sg)
        = (s\<lparr>jobs := (jobs s)[i := (jobs s ! i)\<lparr>state := ST\<rparr>]\<rparr>,
           ''Job ['' @ fmt_d (jid (jobs s ! i)) @ ''] ('' @ fmt_d p @ '') stopped by signal ''
           @ fmt_d sg @ ''\<newline>'')
      \<and> reap_one s p (WSignaled sg)
        = (s\<lparr>jobs := (jobs s)[i := clearjob], nextjid := maxjid ((jobs s)[i := clearjob]) + 1\<rparr>,
           ''Job ['' @ fmt_d (jid (jobs s ! i)) @ ''] ('' @ fmt_d p @ '') terminated by signal ''
           @ fmt_d sg @ ''\<newline>'')
      \<and> reap_one s p (WExited c)
        = (s\<lparr>jobs := (jobs s)[i := clearjob], nextjid := maxjid ((jobs s)[i := clearjob]) + 1\<rparr>,
           []))
   \<and> (getjobpid (jobs s) p = None \<longrightarrow> reap_one s p w = (s, []))"
proof (intro impI conjI)
  assume len: "length (jobs s) = MAXJOBS" and found: "getjobpid (jobs s) p = Some i"
  have i: "i < MAXJOBS" and p: "pid (jobs s ! i) = p"
    using getjobpid_Some [OF found] by simp_all
  show "reap_one s p (WStopped sg)
        = (s\<lparr>jobs := (jobs s)[i := (jobs s ! i)\<lparr>state := ST\<rparr>]\<rparr>,
           ''Job ['' @ fmt_d (jid (jobs s ! i)) @ ''] ('' @ fmt_d p @ '') stopped by signal ''
           @ fmt_d sg @ ''\<newline>'')"
    using found i p len by (simp add: reap_one_def Let_def)
  show "reap_one s p (WSignaled sg)
        = (s\<lparr>jobs := (jobs s)[i := clearjob], nextjid := maxjid ((jobs s)[i := clearjob]) + 1\<rparr>,
           ''Job ['' @ fmt_d (jid (jobs s ! i)) @ ''] ('' @ fmt_d p @ '') terminated by signal ''
           @ fmt_d sg @ ''\<newline>'')"
    using found p by (simp add: reap_one_def deletejob_found)
  show "reap_one s p (WExited c)
        = (s\<lparr>jobs := (jobs s)[i := clearjob], nextjid := maxjid ((jobs s)[i := clearjob]) + 1\<rparr>,
           [])"
    using found by (simp add: reap_one_def deletejob_found)
next
  assume none: "getjobpid (jobs s) p = None"
  show "reap_one s p w = (s, [])"
    using none by (cases w) (simp_all add: reap_one_def deletejob_not_found)
qed

lemma sigchld_handler_first:
  "0 < p \<Longrightarrow> reap_one s p w = (s1, o1) \<Longrightarrow>
     sigchld_handler s ((p, w) # rest)
       = (fst (sigchld_handler s1 rest), o1 @ snd (sigchld_handler s1 rest))"
  by (simp add: case_prod_beta)

text \<open>
  Claim C3. One invocation of the handler, for the child \<open>p\<close> that \<^verbatim>\<open>waitpid\<close> reports
  first and whatever it reports after it (\<open>rest\<close>). When the child has a job record (the
  slot \<open>i\<close> that \<^verbatim>\<open>getjobpid\<close> finds): a stop sets the state of that slot to \<^verbatim>\<open>ST\<close> and
  prints the stopped-by-signal notice with the job number, the pid and the signal; a
  termination by a signal prints the terminated-by-signal notice and clears the slot; a
  normal exit clears the slot and prints nothing. When the pid has no record, the table
  is left as it is and nothing is printed, whatever the status. In each case the handler
  goes on with the rest on the table so changed.
\<close>

theorem sigchld_handler_cases:
  "length (jobs s) = MAXJOBS \<longrightarrow>
   (getjobpid (jobs s) p = Some i \<longrightarrow>
      sigchld_handler s ((p, WStopped sg) # rest)
        = (fst (sigchld_handler (s\<lparr>jobs := (jobs s)[i := (jobs s ! i)\<lparr>state := ST\<rparr>]\<rparr>) rest),
           ''Job ['' @ fmt_d (jid (jobs s ! i)) @ ''] ('' @ fmt_d p @ '') stopped by signal ''
           @ fmt_d sg @ ''\<newline>''
           @ snd (sigchld_handler (s\<lparr>jobs := (jobs s)[i := (jobs s ! i)\<lparr>state := ST\<rparr>]\<rparr>) rest))
      \<and> sigchld_handler s ((p, WSignaled sg) # rest)
        = (fst (sigchld_handler (s\<lparr>jobs := (jobs s)[i := clearjob],
                                    nextjid := maxjid ((jobs s)[i := clearjob]) + 1\<rparr>) rest),
           ''Job ['' @ fmt_d (jid (jobs s ! i)) @ ''] ('' @ fmt_d p @ '') terminated by signal ''
           @ fmt_d sg @ ''\<newline>''
           @ snd (sigchld_handler (s\<lparr>jobs := (jobs s)[i := clearjob],
                                     nextjid := maxjid ((jobs s)[i := clearjob]) + 1\<rparr>) rest))
      \<and> sigchld_handler s ((p, WExited c) # rest)
        = sigchld_handler (s\<lparr>jobs := (jobs s)[i := clearjob],
                              nextjid := maxjid ((jobs s)[i := clearjob]) + 1\<rparr>) rest)
   \<and> (0 < p \<longrightarrow> getjobpid (jobs s) p = None \<longrightarrow>
        sigchld_handler s ((p, w) # rest) = sigchld_handler s rest)"
proof (intro impI conjI)
  assume len: "length (jobs s) = MAXJOBS" and found: "getjobpid (jobs s) p = Some i"
  have pos: "0 < p"
    using getjobpid_Some [OF found] by simp
  note r = reap_one_effect [of s p i sg c, THEN mp, OF len, THEN conjunct1, THEN mp, OF found]
  show "sigchld_handler s ((p, WStopped sg) # rest)
        = (fst (sigchld_handler (s\<lparr>jobs := (jobs s)[i := (jobs s ! i)\<lparr>state := ST\<rparr>]\<rparr>) rest),
           ''Job ['' @ fmt_d (jid (jobs s ! i)) @ ''] ('' @ fmt_d p @ '') stopped by signal ''
           @ fmt_d sg @ ''\<newline>''
           @ snd (sigchld_handler (s\<lparr>jobs := (jobs s)[i := (jobs s ! i)\<lparr>state := ST\<rparr>]\<rparr>) rest))"
    using sigchld_handler_first [OF pos r [THEN conjunct1]] by simp
  show "sigchld_handler s ((p, WSignaled sg) # rest)
        = (fst (sigchld_handler (s\<lparr>jobs := (jobs s)[i := clearjob],
                                    nextjid := maxjid ((jobs s)[i := clearjob]) + 1\<rparr>) rest),
           ''Job ['' @ fmt_d (jid (jobs s ! i)) @ ''] ('' @ fmt_d p @ '') terminated by signal ''
           @ fmt_d sg @ ''\<newline>''
           @ snd (sigchld_handler (s\<lparr>jobs := (jobs s)[i := clearjob],
                                     nextjid := maxjid ((jobs s)[i := clearjob]) + 1\<rparr>) rest))"
    using sigchld_handler_first [OF pos r [THEN conjunct2, THEN conjunct1]] by simp
  show "sigchld_handler s ((p, WExited c) # rest)
        = sigchld_handler (s\<lparr>jobs := (jobs s)[i := clearjob],
                              nextjid := maxjid ((jobs s)[i := clearjob]) + 1\<rparr>) rest"
    using sigchld_handler_first [OF pos r [THEN conjunct2, THEN conjunct2]] by simp
next
  assume len: "length (jobs s) = MAXJOBS" and pos: "0 < p" and none: "getjobpid (jobs s) p = None"
  have "reap_one s p w = (s, [])"
    using reap_one_effect [of s p _ _ _ w] len none by simp
  then show "sigchld_handler s ((p, w) # rest) = sigchld_handler s rest"
    using sigchld_handler_first [OF pos] by simp
qed

theorem sigchld_handler_cases_witness:
  "length (jobs one_job) = MAXJOBS \<and> getjobpid (jobs one_job) 100 = Some 0
   \<and> sigchld_handler one_job [(100, WStopped 20)]
       = (one_job\<lparr>jobs := (jobs one_job)[0 := (jobs one_job ! 0)\<lparr>state := ST\<rparr>]\<rparr>,
          ''Job [1] (100) stopped by signal 20\<newline>'')
   \<and> sigchld_handler one_job [(100, WSignaled 2)]
       = (one_job\<lparr>jobs := (jobs one_job)[0 := clearjob], nextjid := 1\<rparr>,
          ''Job [1] (100) terminated by signal 2\<newline>'')
   \<and> sigchld_handler one_job [(100, WExited 0)]
       = (one_job\<lparr>jobs := (jobs one_job)[0 := clearjob], nextjid := 1\<rparr>, [])
   \<and> (0 :: int) < 555 \<and> getjobpid (jobs one_job) 555 = None
   \<and> sigchld_handler one_job [(555, WSignaled 9), (100, WStopped 20)]
       = sigchld_handler one_job [(100, WStopped 20)]"
proof -
  have len: "length (jobs one_job) = MAXJOBS"
    unfolding one_job_def by code_simp
  have found: "getjobpid (jobs one_job) 100 = Some 0"
    unfolding one_job_def by code_simp
  have none: "getjobpid (jobs one_job) 555 = None"
    unfolding one_job_def by code_simp
  have j: "jid (jobs one_job ! 0) = 1"
    unfolding one_job_def by code_simp
  have mx: "maxjid ((jobs one_job)[0 := clearjob]) = 0"
    unfolding one_job_def by code_simp
  have f1: "fmt_d 1 = ''1''" "fmt_d 100 = ''100''" "fmt_d 20 = ''20''" "fmt_d 2 = ''2''"
    by code_simp+
  show ?thesis
    using len found none
      sigchld_handler_cases [of one_job 100 0 20 "[]" 0]
      sigchld_handler_cases [of one_job 100 0 2 "[]" 0]
      sigchld_handler_cases [of one_job 555 _ _ "[(100, WStopped 20)]" _ "WSignaled 9"]
    by (simp add: j mx f1)
qed

section \<open>The built-in commands bg and fg\<close>

text \<open>
  \<^verbatim>\<open>atoi\<close> stops at the first character that is not a digit and keeps the low 32 bits of
  a large number, so that \<^verbatim>\<open>bg %4294967297\<close> resumes job 1.
\<close>

lemma atoi_examples:
  "atoi ''12abc'' = 12 \<and> atoi ''abc'' = 0 \<and> atoi '' -7'' = - 7 \<and> atoi ''4294967297'' = 1
   \<and> atoi ''2147483648'' = - 2147483648 \<and> atoi ''99999999999999999999'' = - 1"
  by code_simp

lemma do_bgfg_atoi_wraps:
  "state (jobs (fst (do_bgfg stopped_job [''bg'', ''%4294967297''] os_ok)) ! 0) = BG
   \<and> kills (snd (do_bgfg stopped_job [''bg'', ''%4294967297''] os_ok)) = [(- 100, SIGCONT)]"
  unfolding stopped_job_def one_job_def os_ok_def by code_simp

text \<open>
  Claim C7, as amended. When the target of \<^verbatim>\<open>bg\<close> or \<^verbatim>\<open>fg\<close> is empty or begins with a
  character that is neither \<^verbatim>\<open>%\<close> nor a digit, \<^verbatim>\<open>do_bgfg\<close> prints the usage error, changes no
  job record and calls \<^verbatim>\<open>kill\<close> for no process.
\<close>

theorem do_bgfg_usage:
  "ident = [] \<or> (hd ident \<noteq> CHR ''%'' \<and> \<not> isdigit (hd ident)) \<Longrightarrow>
     do_bgfg s (a0 # ident # rest) os
       = (s, \<lparr>out = a0 @ '': argument must be a PID or %jobid\<newline>'', kills = [], spawned = [],
               ctl = Return\<rparr>)"
  by (cases ident) (auto simp: say_def)

theorem do_bgfg_usage_witness:
  "(hd ''abc'' \<noteq> CHR ''%'' \<and> \<not> isdigit (hd ''abc''))
   \<and> do_bgfg stopped_job [''fg'', ''abc''] os_ok
       = (stopped_job, \<lparr>out = ''fg: argument must be a PID or %jobid\<newline>'', kills = [],
                         spawned = [], ctl = Return\<rparr>)"
proof -
  have h: "''abc'' = [] \<or> (hd ''abc'' \<noteq> CHR ''%'' \<and> \<not> isdigit (hd ''abc''))"
    by (simp add: isdigit_def)
  show ?thesis
    using h do_bgfg_usage [OF h, of stopped_job "''fg''" "[]" os_ok] by simp
qed

text \<open>
  Claim C7 as stated does not hold: only the first character of the target is tested and
  \<^verbatim>\<open>atoi\<close> reads the digits that follow. \<^verbatim>\<open>fg %abc\<close> prints \<^verbatim>\<open>%abc: No such job\<close>, not the
  usage error; and with job 1 stopped, \<^verbatim>\<open>bg %1abc\<close> sends \<^verbatim>\<open>SIGCONT\<close> to the group of that
  job and sets its state to \<^verbatim>\<open>BG\<close>.
\<close>

theorem do_bgfg_malformed_counterexample:
  "do_bgfg stopped_job [''fg'', ''%abc''] os_ok
     = (stopped_job, \<lparr>out = ''%abc: No such job\<newline>'', kills = [], spawned = [], ctl = Return\<rparr>)
   \<and> state (jobs stopped_job ! 0) = ST
   \<and> state (jobs (fst (do_bgfg stopped_job [''bg'', ''%1abc''] os_ok)) ! 0) = BG
   \<and> kills (snd (do_bgfg stopped_job [''bg'', ''%1abc''] os_ok)) = [(- 100, SIGCONT)]"
  unfolding stopped_job_def one_job_def os_ok_def by code_simp

section \<open>Pipelines\<close>

lemma fork_stages_ctl: "fork_stages cs i n os = Some (chs, k) \<Longrightarrow> k = Return \<or> k = Exit"
proof (induction cs arbitrary: i chs k)
  case Nil
  then show ?case by simp
next
  case (Cons c cs)
  then show ?case
    by (auto split: option.splits if_splits prod.splits)
qed

lemma eval_pipeline:
  assumes "2 \<le> length (parsepipe cmd)" and "eval s cmd os = Some (s', fx)"
  shows "s' = s"
  using assms
  by (auto simp: eval_def split: if_splits option.splits prod.splits)

lemma eval_pipeline_ctl:
  assumes "2 \<le> length (parsepipe cmd)" and "eval s cmd os = Some (s', fx)"
  shows "ctl fx = Return \<or> ctl fx = Exit"
proof (cases "pipe_ok os")
  case False
  then show ?thesis
    using assms by (auto simp: eval_def split: if_splits)
next
  case True
  then obtain chs k where f: "fork_stages (parsepipe cmd) 0 (length (parsepipe cmd)) os = Some (chs, k)"
    and fx: "ctl fx = k"
    using assms by (auto simp: eval_def split: if_splits option.splits prod.splits)
  show ?thesis
    using fork_stages_ctl [OF f] fx by simp
qed

text \<open>
  Claim C9. When the line splits into two or more pipeline commands, \<^verbatim>\<open>eval\<close> returns
  the job table, \<^verbatim>\<open>nextjid\<close> and \<^verbatim>\<open>verbose\<close> as they were: no record is added for a
  pipeline.
\<close>

theorem eval_pipeline_table:
  "2 \<le> length (parsepipe cmd) \<Longrightarrow> eval s cmd os = Some (s', fx) \<Longrightarrow> s' = s"
  by (rule eval_pipeline)

theorem eval_pipeline_table_witness:
  "2 \<le> length (parsepipe ''cat | wc -l\<newline>'')
   \<and> eval one_job ''cat | wc -l\<newline>'' os_ok
       = Some (one_job,
           \<lparr>out = [], kills = [],
            spawned = [\<lparr>cpid = 200, calls = [Dup2 (Pipefd 1) STDOUT_FILENO, Close (Pipefd 0),
                                             Close (Pipefd 1), Execvp [''cat'']]\<rparr>,
                       \<lparr>cpid = 201, calls = [Dup2 (Pipefd 0) STDIN_FILENO, Close (Pipefd 0),
                                             Close (Pipefd 1), Execvp [''wc'', ''-l'']]\<rparr>],
            ctl = Return\<rparr>)"
proof -
  have n: "2 \<le> length (parsepipe ''cat | wc -l\<newline>'')"
    by code_simp
  have e: "map_option snd (eval one_job ''cat | wc -l\<newline>'' os_ok)
       = Some \<lparr>out = [], kills = [],
            spawned = [\<lparr>cpid = 200, calls = [Dup2 (Pipefd 1) STDOUT_FILENO, Close (Pipefd 0),
                                             Close (Pipefd 1), Execvp [''cat'']]\<rparr>,
                       \<lparr>cpid = 201, calls = [Dup2 (Pipefd 0) STDIN_FILENO, Close (Pipefd 0),
                                             Close (Pipefd 1), Execvp [''wc'', ''-l'']]\<rparr>],
            ctl = Return\<rparr>"
    unfolding one_job_def os_ok_def by code_simp
  then obtain s' where "eval one_job ''cat | wc -l\<newline>'' os_ok = Some (s', \<lparr>out = [], kills = [],
            spawned = [\<lparr>cpid = 200, calls = [Dup2 (Pipefd 1) STDOUT_FILENO, Close (Pipefd 0),
                                             Close (Pipefd 1), Execvp [''cat'']]\<rparr>,
                       \<lparr>cpid = 201, calls = [Dup2 (Pipefd 0) STDIN_FILENO, Close (Pipefd 0),
                                             Close (Pipefd 1), Execvp [''wc'', ''-l'']]\<rparr>],
            ctl = Return\<rparr>)"
    by auto
  then show ?thesis
    using n eval_pipeline_table [OF n, of one_job os_ok s'] by simp
qed

lemma foldl_no_setpgid:
  "\<forall>a b. Setpgid a b \<notin> set cs \<Longrightarrow>
     foldl (\<lambda>g call. case call of Setpgid a b \<Rightarrow> (if a = 0 then (if b = 0 then p else b) else g) | _ \<Rightarrow> g) g cs = g"
  by (induction cs arbitrary: g) (auto split: syscall.splits)

lemma redirect_no_setpgid:
  "Setpgid a b \<notin> set (redirect_in f)" "Setpgid a b \<notin> set (redirect_out f' app t)"
  by (auto simp: redirect_in_def redirect_out_def split: option.splits)

lemma child_stage_no_setpgid: "Setpgid a b \<notin> set (child_stage pr i n)"
  by (auto simp: child_stage_def redirect_no_setpgid)

lemma fork_stages_children:
  "fork_stages cs i n os = Some (chs, k) \<Longrightarrow> c \<in> set chs \<Longrightarrow> \<exists>pr j. calls c = child_stage pr j n"
proof (induction cs arbitrary: i chs k)
  case Nil
  then show ?case by simp
next
  case (Cons x xs)
  obtain pr where pr: "parseline x = Some pr"
    using Cons.prems(1) by (auto split: option.splits)
  show ?case
  proof (cases "fork_ret os i = 0")
    case True
    then show ?thesis using Cons.prems pr by simp
  next
    case False
    then obtain chs' where rest: "fork_stages xs (i + 1) n os = Some (chs', k)"
      and chs: "chs = (if fork_ret os i > 0 then [\<lparr>cpid = fork_ret os i, calls = child_stage pr i n\<rparr>] else []) @ chs'"
      using Cons.prems(1) pr by (auto split: option.splits prod.splits)
    show ?thesis
    proof (cases "c \<in> set chs'")
      case True
      then show ?thesis using Cons.IH [OF rest] by simp
    next
      case False
      then have "calls c = child_stage pr i n"
        using Cons.prems(2) chs by (auto split: if_splits)
      then show ?thesis by blast
    qed
  qed
qed

lemma pipeline_stage_stays_in_group:
  assumes "2 \<le> length (parsepipe cmd)" and "eval s cmd os = Some (s', fx)" and "c \<in> set (spawned fx)"
  shows "pgid_of_child g c = g"
proof -
  have "\<exists>pr j. calls c = child_stage pr j (length (parsepipe cmd))"
  proof (cases "pipe_ok os")
    case False
    then show ?thesis
      using assms by (auto simp: eval_def split: if_splits)
  next
    case True
    then obtain chs k where f: "fork_stages (parsepipe cmd) 0 (length (parsepipe cmd)) os = Some (chs, k)"
      and fx: "spawned fx = chs"
      using assms by (auto simp: eval_def split: if_splits option.splits prod.splits)
    show ?thesis
      using fork_stages_children [OF f] assms(3) fx by simp
  qed
  then obtain pr j where "calls c = child_stage pr j (length (parsepipe cmd))"
    by blast
  then show ?thesis
    unfolding pgid_of_child_def using child_stage_no_setpgid by (simp add: foldl_no_setpgid)
qed

lemma single_child_own_group: "pgid_of_child g \<lparr>cpid = p, calls = child_single pr\<rparr> = p"
proof -
  have "\<forall>a b. Setpgid a b \<notin> set (redirect_in (infile pr)
     @ redirect_out (outfile pr) (append_out pr) STDOUT_FILENO
     @ redirect_out (errfile pr) False STDERR_FILENO
     @ [Execvp (argv pr)])"
    by (simp add: redirect_no_setpgid)
  then show ?thesis
    unfolding pgid_of_child_def child_single_def
    by (simp add: foldl_no_setpgid)
qed

text \<open>
  Claim C6 at a failing input. The children of the pipeline \<^verbatim>\<open>cat | wc -l\<close>, forked by a
  shell in the process group 50, never call \<^verbatim>\<open>setpgid\<close> and stay in the group 50, the
  shell's own; the child of the single command \<^verbatim>\<open>cat\<close> calls \<^verbatim>\<open>setpgid(0, 0)\<close> and gets
  the group of its own pid.
\<close>

theorem pipeline_stages_in_shell_group:
  "map_option (\<lambda>r. map (\<lambda>c. (cpid c, pgid_of_child 50 c)) (spawned (snd r)))
     (eval (init_shell False) ''cat | wc -l\<newline>'' os_ok) = Some [(200, 50), (201, 50)]
   \<and> map_option (\<lambda>r. map (\<lambda>c. (cpid c, pgid_of_child 50 c)) (spawned (snd r)))
     (eval (init_shell False) ''cat\<newline>'' os_ok) = Some [(200, 200)]"
  unfolding os_ok_def by code_simp

section \<open>The background flag of parseline\<close>

subsection \<open>The scanner and the words of the line\<close>

lemma space_words_trailing: "space_words (s @ '' '') = space_words s"
proof (induction s rule: space_words.induct)
  case (1 s)
  let ?b = "skip_spaces s"
  show ?case
  proof (cases "?b = []")
    case True
    then have "skip_spaces (s @ '' '') = []"
      by (simp add: skip_spaces_def dropWhile_append)
    then show ?thesis
      using True by (simp add: space_words.simps [of s] space_words.simps [of "s @ '' ''"])
  next
    case False
    then have sk: "skip_spaces (s @ '' '') = ?b @ '' ''"
      by (auto simp: skip_spaces_def dropWhile_append)
    have tok: "token (?b @ '' '') = token ?b"
    proof (cases "CHR '' '' \<in> set ?b")
      case True
      then show ?thesis
        unfolding token_def by (intro takeWhile_append1 [of "CHR '' ''"]) simp_all
    next
      case False
      then have all: "\<forall>x \<in> set ?b. x \<noteq> CHR '' ''" by auto
      then have tw: "takeWhile (\<lambda>c. c \<noteq> CHR '' '') ?b = ?b"
        by (simp add: takeWhile_eq_all_conv)
      show ?thesis
        unfolding token_def using all by (simp add: takeWhile_append2 tw)
    qed
    show ?thesis
    proof (cases "CHR '' '' \<in> set ?b")
      case True
      then have "dropWhile (\<lambda>c. c \<noteq> CHR '' '') ?b \<noteq> []"
        by (simp add: dropWhile_eq_Nil_conv)
      then obtain x xs where "dropWhile (\<lambda>c. c \<noteq> CHR '' '') ?b = x # xs"
        by (cases "dropWhile (\<lambda>c. c \<noteq> CHR '' '') ?b") auto
      moreover have "dropWhile (\<lambda>c. c \<noteq> CHR '' '') (?b @ '' '') = dropWhile (\<lambda>c. c \<noteq> CHR '' '') ?b @ '' ''"
        using True by (auto simp: dropWhile_append)
      ultimately have af: "after_token (?b @ '' '') = after_token ?b @ '' ''"
        by (simp add: after_token_def)
      have "space_words (s @ '' '') = token ?b # space_words (after_token ?b @ '' '')"
        using sk tok af by (simp add: space_words.simps [of "s @ '' ''"])
      also have "\<dots> = token ?b # space_words (after_token ?b)"
        using "1.IH" [OF False] by simp
      finally show ?thesis
        using False by (simp add: space_words.simps [of s])
    next
      case nosp: False
      then have all: "\<forall>x \<in> set ?b. x \<noteq> CHR '' ''"
        by auto
      then have d: "dropWhile (\<lambda>c. c \<noteq> CHR '' '') ?b = []"
        by (simp add: dropWhile_eq_Nil_conv)
      have dd: "dropWhile (\<lambda>c. c \<noteq> CHR '' '') (?b @ '' '') = '' ''"
        using all by (simp add: dropWhile_append2)
      have af: "after_token (?b @ '' '') = []" "after_token ?b = []"
        unfolding after_token_def d dd by simp_all
      have e: "space_words [] = []"
        by (simp add: space_words.simps [of "[]"] skip_spaces_def)
      show ?thesis
        using sk tok af e False
        by (simp add: space_words.simps [of "s @ '' ''"] space_words.simps [of s])
    qed
  qed
qed

lemma skip_spaces_Nil [simp]: "skip_spaces [] = []"
  by (simp add: skip_spaces_def)

lemma skip_spaces_Cons:
  "skip_spaces (c # r) = (if c = CHR '' '' then skip_spaces r else c # r)"
  by (simp add: skip_spaces_def)

lemma token_Nil [simp]: "token [] = []"
  by (simp add: token_def)

lemma token_Cons: "token (c # r) = (if c = CHR '' '' then [] else c # token r)"
  by (simp add: token_def)

lemma after_token_Nil [simp]: "after_token [] = []"
  by (simp add: after_token_def)

lemma after_token_Cons: "after_token (c # r) = (if c = CHR '' '' then r else after_token r)"
  by (simp add: after_token_def)

lemma space_words_Nil [simp]: "space_words [] = []"
  by (simp add: space_words.simps [of "[]"])

lemma skip_spaces_idem [simp]: "skip_spaces (skip_spaces s) = skip_spaces s"
  by (induction s) (simp_all add: skip_spaces_Cons)

lemma space_words_skip [simp]: "space_words (skip_spaces s) = space_words s"
  by (simp add: space_words.simps [of "skip_spaces s"] space_words.simps [of s])

lemma space_words_drop1: "drop 1 (space_words s) = space_words (after_token (skip_spaces s))"
  by (simp add: space_words.simps [of s])

text \<open>After a redirection operator: the scanner skips spaces and takes the next token as the target.\<close>

lemma redirect_target:
  "space_words (after_token (skip_spaces r))
     = (if token r = [] then drop 1 (space_words (after_token r)) else space_words (after_token r))"
proof (cases r)
  case Nil
  then show ?thesis by simp
next
  case (Cons c cs)
  show ?thesis
  proof (cases "c = CHR '' ''")
    case True
    have "space_words (after_token (skip_spaces cs)) = drop 1 (space_words cs)"
      by (simp only: space_words_drop1)
    then show ?thesis
      using Cons True by (simp add: token_Cons after_token_Cons skip_spaces_Cons)
  next
    case False
    then show ?thesis
      using Cons by (simp add: token_Cons skip_spaces_Cons)
  qed
qed

lemma take1_token: "take 1 (token r) = ''>'' \<Longrightarrow> take 1 r = ''>''"
  by (cases r) (auto simp: token_Cons split: if_splits)

lemma skip_spaces_hd: "skip_spaces buf = c # r \<Longrightarrow> c \<noteq> CHR '' ''"
  using hd_dropWhile [of "\<lambda>c. c = CHR '' ''" buf] by (auto simp: skip_spaces_def)

lemma word_args_arg:
  "take 2 w \<noteq> ''2>'' \<Longrightarrow> take 1 w \<noteq> ''<'' \<Longrightarrow> take 2 w \<noteq> ''>>'' \<Longrightarrow> take 1 w \<noteq> ''>''
     \<Longrightarrow> word_args (w # ws) = w # word_args ws"
  by simp

lemma parse_loop_words:
  "p_argv (parse_loop buf st) = p_argv st @ word_args (space_words buf)"
proof (induction buf st rule: parse_loop.induct)
  case (1 buf st)
  let ?b = "skip_spaces buf"
  show ?case
  proof (cases ?b)
    case Nil
    then show ?thesis
      by (simp add: parse_loop.simps [of buf st] space_words.simps [of buf])
  next
    case (Cons c r)
    have c: "c \<noteq> CHR '' ''"
      using Cons by (rule skip_spaces_hd)
    have ne: "?b \<noteq> []" using Cons by simp
    have words: "space_words buf = (c # token r) # space_words (after_token r)"
      using Cons c by (simp add: space_words.simps [of buf] token_Cons after_token_Cons)
    show ?thesis
    proof (cases "take 2 ?b = ''2>''")
      case True
      then obtain r' where r: "r = CHR ''>'' # r'" and c2: "c = CHR ''2''"
        using Cons by (cases r) auto
      have d: "drop 2 ?b = r'" using Cons r by simp
      have "p_argv (parse_loop buf st) = p_argv st @ word_args (space_words (after_token (skip_spaces r')))"
        using "1.IH"(1) [OF ne True] True ne d by (simp add: parse_loop.simps [of buf st])
      moreover have "word_args (space_words buf)
                       = word_args (if token r' = [] then drop 1 (space_words (after_token r'))
                                    else space_words (after_token r'))"
        using words r c2 by (simp add: token_Cons after_token_Cons)
      ultimately show ?thesis
        by (simp add: redirect_target)
    next
      case no2: False
      show ?thesis
      proof (cases "c = CHR ''<''")
        case True
        have hd: "hd ?b = CHR ''<''" using Cons True by simp
        have t: "tl ?b = r" using Cons by simp
        have "p_argv (parse_loop buf st) = p_argv st @ word_args (space_words (after_token (skip_spaces r)))"
          using "1.IH"(2) [OF ne no2 hd] ne no2 hd t by (simp add: parse_loop.simps [of buf st])
        moreover have "word_args (space_words buf)
                         = word_args (if token r = [] then drop 1 (space_words (after_token r))
                                      else space_words (after_token r))"
          using words True by simp
        ultimately show ?thesis
          by (simp add: redirect_target)
      next
        case nolt: False
        have hdlt: "hd ?b \<noteq> CHR ''<''" using Cons nolt by simp
        show ?thesis
        proof (cases "c = CHR ''>''")
          case True
          have hd: "hd ?b = CHR ''>''" using Cons True by simp
          have t: "tl ?b = r" using Cons by simp
          show ?thesis
          proof (cases "take 1 r = ''>''")
            case dbl: True
            then obtain r' where r: "r = CHR ''>'' # r'"
              by (cases r) auto
            have d: "drop 2 ?b = r'" using Cons r by simp
            have dbl': "take 1 (tl ?b) = ''>''" using t dbl by simp
            have "p_argv (parse_loop buf st)
                    = p_argv st @ word_args (space_words (after_token (skip_spaces r')))"
              using "1.IH"(3) [OF ne no2 hdlt hd dbl'] ne no2 hdlt hd dbl' d
              by (simp add: parse_loop.simps [of buf st])
            moreover have "word_args (space_words buf)
                             = word_args (if token r' = [] then drop 1 (space_words (after_token r'))
                                          else space_words (after_token r'))"
              using words True r by (simp add: token_Cons after_token_Cons)
            ultimately show ?thesis
              by (simp add: redirect_target)
          next
            case sgl: False
            have sgl': "take 1 (tl ?b) \<noteq> ''>''" using t sgl by simp
            have nt: "take 1 (token r) \<noteq> ''>''"
              using sgl take1_token by blast
            have "p_argv (parse_loop buf st)
                    = p_argv st @ word_args (space_words (after_token (skip_spaces r)))"
              using "1.IH"(4) [OF ne no2 hdlt hd sgl'] ne no2 hdlt hd sgl' t
              by (simp add: parse_loop.simps [of buf st])
            moreover have "word_args (space_words buf)
                             = word_args (if token r = [] then drop 1 (space_words (after_token r))
                                          else space_words (after_token r))"
              using words True nt by simp
            ultimately show ?thesis
              by (simp add: redirect_target)
          qed
        next
          case nogt: False
          have hdgt: "hd ?b \<noteq> CHR ''>''" using Cons nogt by simp
          have at: "after_token ?b = after_token r" and tk: "token ?b = c # token r"
            using Cons c by (simp_all add: token_Cons after_token_Cons)
          have step: "p_argv (parse_loop buf st)
                  = p_argv st @ [c # token r] @ word_args (space_words (after_token r))"
            using "1.IH"(5) [OF ne no2 hdlt hdgt] ne no2 hdlt hdgt at tk
            by (simp add: parse_loop.simps [of buf st])
          have "take 2 (c # token r) \<noteq> ''2>''"
          proof
            assume "take 2 (c # token r) = ''2>''"
            then have "c = CHR ''2''" and "take 1 (token r) = ''>''" by auto
            then have "take 1 r = ''>''" using take1_token by blast
            then have "take 2 ?b = ''2>''" using Cons \<open>c = CHR ''2''\<close> by (cases r) auto
            then show False using no2 by simp
          qed
          moreover have "take 1 (c # token r) \<noteq> ''<''" "take 2 (c # token r) \<noteq> ''>>''"
            "take 1 (c # token r) \<noteq> ''>''"
            using nolt nogt by simp_all
          ultimately have "word_args ((c # token r) # space_words (after_token r))
                             = (c # token r) # word_args (space_words (after_token r))"
            by (intro word_args_arg)
          then show ?thesis
            using step words by simp
        qed
      qed
    qed
  qed
qed

text \<open>
  The argument tokens that \<^verbatim>\<open>parseline\<close> collects are the argument words of the line: its
  words without the redirections and their targets.
\<close>

lemma arg_tokens_words: "arg_tokens cmd = word_args (space_words (butlast cmd))"
  by (simp add: arg_tokens_def parse_loop_words space_words_trailing)

text \<open>
  \<^verbatim>\<open>parseline\<close> has defined behaviour on a line that is not empty and has fewer than
  \<^verbatim>\<open>MAXARGS\<close> argument words.
\<close>

lemma parseline_defined:
  "parseline cmd \<noteq> None
     \<longleftrightarrow> cmd \<noteq> [] \<and> length (word_args (space_words (butlast cmd))) < MAXARGS"
proof -
  have "parseline cmd \<noteq> None \<longleftrightarrow> cmd \<noteq> [] \<and> length (arg_tokens cmd) < MAXARGS"
    by (auto simp: parseline_def arg_tokens_def Let_def)
  then show ?thesis
    by (simp only: arg_tokens_words)
qed

subsection \<open>When a job is reported as background\<close>

text \<open>
  Claim C8, as amended. The line is split into words at the space character only (a tab
  separates nothing). When \<^verbatim>\<open>parseline\<close> has defined behaviour, it reports background
  exactly when the line has no argument word or its last argument word begins with \<^verbatim>\<open>&\<close>,
  and then that word is dropped from \<^verbatim>\<open>argv\<close>. The argument words are the words left when
  every redirection is removed: a word that begins with \<^verbatim>\<open>2>\<close>, \<^verbatim>\<open><\<close>, \<^verbatim>\<open>>>\<close> or \<^verbatim>\<open>>\<close>,
  together with the next word when nothing follows the operator inside the word.
\<close>

theorem parseline_bg:
  "parseline cmd = Some r \<Longrightarrow>
     bg r = (word_args (space_words (butlast cmd)) = []
             \<or> hd (last (word_args (space_words (butlast cmd)))) = CHR ''&'')
     \<and> argv r = (if bg r then butlast (word_args (space_words (butlast cmd)))
                 else word_args (space_words (butlast cmd)))"
proof -
  assume p: "parseline cmd = Some r"
  let ?a = "arg_tokens cmd"
  have "bg r = (?a = [] \<or> hd (last ?a) = CHR ''&'') \<and> argv r = (if bg r then butlast ?a else ?a)"
    using p by (auto simp: parseline_def arg_tokens_def Let_def split: if_splits)
  then show ?thesis
    by (simp only: arg_tokens_words)
qed

theorem parseline_bg_witness:
  "parseline ''sleep 5 2>log >> out &\<newline>''
     = Some \<lparr>argv = [''sleep'', ''5''], infile = None, outfile = Some ''out'', errfile = Some ''log'',
             append_out = True, bg = True\<rparr>
   \<and> space_words (butlast ''sleep 5 2>log >> out &\<newline>'')
       = [''sleep'', ''5'', ''2>log'', ''>>'', ''out'', ''&'']
   \<and> word_args (space_words (butlast ''sleep 5 2>log >> out &\<newline>'')) = [''sleep'', ''5'', ''&'']"
proof -
  have p: "parseline ''sleep 5 2>log >> out &\<newline>''
     = Some \<lparr>argv = [''sleep'', ''5''], infile = None, outfile = Some ''out'', errfile = Some ''log'',
             append_out = True, bg = True\<rparr>"
    by code_simp
  have w: "space_words (butlast ''sleep 5 2>log >> out &\<newline>'')
       = [''sleep'', ''5'', ''2>log'', ''>>'', ''out'', ''&'']"
    by code_simp
  have a: "word_args [''sleep'', ''5'', ''2>log'', ''>>'', ''out'', ''&''] = [''sleep'', ''5'', ''&'']"
    by code_simp
  show ?thesis
    using p w a parseline_bg [OF p] by simp
qed

text \<open>
  Claim C8 as stated does not hold, in either direction. The last token \<^verbatim>\<open>&x\<close> is not
  the bare \<^verbatim>\<open>&\<close>, and the job is reported as background; in \<^verbatim>\<open>ls > &\<close> the last token is
  the bare \<^verbatim>\<open>&\<close>, which becomes the output file, and the job is reported as foreground; a
  blank line has no token and is reported as background.
\<close>

theorem parseline_bg_counterexample:
  "map_option bg (parseline ''sleep 5 &x\<newline>'') = Some True \<and> \<not> spec_background ''sleep 5 &x\<newline>''
   \<and> map_option bg (parseline ''ls > &\<newline>'') = Some False \<and> spec_background ''ls > &\<newline>''
   \<and> map_option bg (parseline ''\<newline>'') = Some True \<and> \<not> spec_background ''\<newline>''"
  by code_simp

section \<open>At most one foreground job\<close>

subsection \<open>The handlers never put a job into the foreground\<close>

lemma no_fg_fg_only: "no_fg js \<Longrightarrow> fg_only p js"
  by (simp add: no_fg_def fg_only_def)

lemma shrinks_refl: "shrinks js js"
  by (simp add: shrinks_def)

lemma shrinks_trans: "shrinks a b \<Longrightarrow> shrinks b c \<Longrightarrow> shrinks a c"
  by (simp add: shrinks_def)

lemma shrinks_no_fg: "shrinks js js' \<Longrightarrow> no_fg js \<Longrightarrow> no_fg js'"
  by (auto simp: shrinks_def no_fg_def)

lemma shrinks_fg_only: "shrinks js js' \<Longrightarrow> fg_only p js \<Longrightarrow> fg_only p js'"
  unfolding shrinks_def fg_only_def by metis

lemma shrinks_update:
  assumes "state j \<noteq> FG"
  shows "shrinks js (js[i := j])"
proof -
  have "state (js[i := j] ! m) = FG \<longrightarrow> state (js ! m) = FG \<and> pid (js[i := j] ! m) = pid (js ! m)" for m
  proof (cases "i < length js \<and> m = i")
    case True
    then show ?thesis using assms by simp
  next
    case False
    then have "js[i := j] ! m = js ! m"
      by (cases "i < length js") (auto simp: list_update_beyond)
    then show ?thesis by simp
  qed
  then show ?thesis
    by (simp add: shrinks_def)
qed

lemma deletejob_shrinks: "shrinks (jobs s) (jobs (fst (deletejob s p)))"
proof (cases "getjobpid (jobs s) p")
  case None
  then show ?thesis
    by (simp add: deletejob_not_found shrinks_refl)
next
  case (Some i)
  have "state clearjob \<noteq> FG" by (simp add: clearjob_def)
  then show ?thesis
    by (simp add: deletejob_found [OF Some] shrinks_update)
qed

lemma reap_one_shrinks: "shrinks (jobs s) (jobs (fst (reap_one s p w)))"
proof (cases w)
  case (WStopped sg)
  then show ?thesis
    by (auto simp: reap_one_def Let_def shrinks_refl shrinks_update split: option.splits)
next
  case (WSignaled sg)
  then show ?thesis
    by (auto simp: reap_one_def shrinks_refl deletejob_shrinks split: option.splits)
next
  case (WExited c)
  then show ?thesis
    by (simp add: reap_one_def deletejob_shrinks)
next
  case WContinued
  then show ?thesis
    by (simp add: reap_one_def shrinks_refl)
qed

lemma sigchld_handler_shrinks: "shrinks (jobs s) (jobs (fst (sigchld_handler s ns)))"
proof (induction ns arbitrary: s)
  case Nil
  show ?case by (simp add: shrinks_refl)
next
  case (Cons n ns)
  obtain p w where n: "n = (p, w)" by (cases n)
  show ?case
  proof (cases "p > 0")
    case False
    then show ?thesis by (simp add: n shrinks_refl)
  next
    case True
    obtain s1 o1 where r: "reap_one s p w = (s1, o1)" by (cases "reap_one s p w")
    obtain s2 o2 where h: "sigchld_handler s1 ns = (s2, o2)" by (cases "sigchld_handler s1 ns")
    have a: "shrinks (jobs s) (jobs s1)"
      using reap_one_shrinks [of s p w] r by simp
    have b: "shrinks (jobs s1) (jobs s2)"
      using Cons.IH [of s1] h by simp
    show ?thesis
      using True shrinks_trans [OF a b] by (simp add: n r h)
  qed
qed

subsection \<open>When waitfg returns, no job is in the foreground\<close>

subsection \<open>When fgpid does not return the pid waited for, no job is in the foreground\<close>

lemma fgpid_loop_clear:
  "fgpid_loop js i \<noteq> p \<Longrightarrow>
   (\<forall>m. i \<le> m \<and> m < MAXJOBS \<and> state (js ! m) = FG \<longrightarrow> pid (js ! m) = p) \<Longrightarrow>
   i \<le> m \<Longrightarrow> m < MAXJOBS \<Longrightarrow> state (js ! m) \<noteq> FG"
proof (induction js i rule: fgpid_loop.induct)
  case (1 js i)
  have lt: "i < MAXJOBS" using "1.prems" by simp
  have here: "state (js ! i) \<noteq> FG"
  proof
    assume fg: "state (js ! i) = FG"
    then have "fgpid_loop js i = pid (js ! i)"
      using lt by (simp add: fgpid_loop.simps [of js i])
    moreover have "pid (js ! i) = p"
      using "1.prems"(2) lt fg by simp
    ultimately show False using "1.prems"(1) by simp
  qed
  show ?case
  proof (cases "m = i")
    case True
    then show ?thesis using here by simp
  next
    case False
    have nxt: "fgpid_loop js (i + 1) \<noteq> p"
      using "1.prems"(1) lt here by (simp add: fgpid_loop.simps [of js i])
    have all: "\<forall>m. i + 1 \<le> m \<and> m < MAXJOBS \<and> state (js ! m) = FG \<longrightarrow> pid (js ! m) = p"
      using "1.prems"(2) by simp
    have "i + 1 \<le> m" using False "1.prems"(3) by simp
    then show ?thesis
      using "1.IH" [OF lt here nxt all] "1.prems"(4) by simp
  qed
qed

lemma waitfg_done: "fg_only p (jobs s) \<Longrightarrow> \<not> waitfg_cond s p \<Longrightarrow> no_fg (jobs s)"
  unfolding no_fg_def fg_only_def waitfg_cond_def fgpid_def
  using fgpid_loop_clear [of "jobs s" 0 p] by (metis le0)

subsection \<open>A command puts at most the job it waits for into the foreground\<close>

subsection \<open>A command puts at most the job it waits for into the foreground\<close>

lemma getjobjid_loop_Some: "getjobjid_loop js j i = Some k \<Longrightarrow> k < MAXJOBS"
proof (induction js j i rule: getjobjid_loop.induct)
  case (1 js j i)
  then show ?case
    by (auto simp: getjobjid_loop.simps [of js j i] split: if_splits)
qed

lemma getjobjid_Some: "getjobjid js j = Some k \<Longrightarrow> k < MAXJOBS"
  using getjobjid_loop_Some by (auto simp: getjobjid_def split: if_splits)

lemma no_fg_update_other:
  "no_fg js \<Longrightarrow> state j \<noteq> FG \<Longrightarrow> no_fg (js[i := j])"
  using shrinks_update shrinks_no_fg by blast

lemma no_fg_update_fg:
  assumes "no_fg js" and "i < MAXJOBS" and "length js = MAXJOBS"
  shows "fg_only (pid j) (js[i := j])"
proof -
  have other: "m < MAXJOBS \<Longrightarrow> state (js[i := j] ! m) = FG \<Longrightarrow> m = i" for m
  proof (rule ccontr)
    assume m: "m < MAXJOBS" and fg: "state (js[i := j] ! m) = FG" and ne: "m \<noteq> i"
    then have "js[i := j] ! m = js ! m" by simp
    then show False using assms(1) m fg by (simp add: no_fg_def)
  qed
  have here: "js[i := j] ! i = j"
    using assms by simp
  show ?thesis
    unfolding fg_only_def using other here by metis
qed

lemma do_bgfg_resume_inv:
  assumes "do_bgfg_resume s a0 i p os = (s', fx)"
    and "length (jobs s) = MAXJOBS" and "no_fg (jobs s)" and "i < MAXJOBS"
  shows "length (jobs s') = MAXJOBS \<and> ctl_inv (ctl fx) (jobs s')"
proof (cases "kill_ok os")
  case False
  then show ?thesis
    using assms by (auto simp: do_bgfg_resume_def ctl_inv_def)
next
  case ok: True
  show ?thesis
  proof (cases "a0 = ''fg''")
    case True
    let ?js = "(jobs s)[i := (jobs s ! i)\<lparr>state := FG\<rparr>]"
    have r: "s' = s\<lparr>jobs := ?js\<rparr>" "ctl fx = WaitFg (pid (?js ! i))"
      using assms(1) ok True by (auto simp: do_bgfg_resume_def Let_def)
    have "?js ! i = (jobs s ! i)\<lparr>state := FG\<rparr>"
      using assms by simp
    then have "fg_only (pid (?js ! i)) ?js"
      using no_fg_update_fg [OF assms(3,4,2), of "(jobs s ! i)\<lparr>state := FG\<rparr>"] by simp
    then show ?thesis
      using r assms(2) by (simp add: ctl_inv_def)
  next
    case nfg: False
    show ?thesis
    proof (cases "a0 = ''bg''")
      case True
      let ?js = "(jobs s)[i := (jobs s ! i)\<lparr>state := BG\<rparr>]"
      have r: "s' = s\<lparr>jobs := ?js\<rparr>" "ctl fx = Return"
        using assms(1) ok nfg True by (auto simp: do_bgfg_resume_def Let_def)
      have "no_fg ?js"
        using assms(3) by (intro no_fg_update_other) simp_all
      then show ?thesis
        using r assms(2) by (simp add: ctl_inv_def)
    next
      case False
      then show ?thesis
        using assms ok nfg by (auto simp: do_bgfg_resume_def ctl_inv_def)
    qed
  qed
qed

lemma say_inv [simp]: "ctl (say msg) = Return" "ctl quiet = Return"
  by (simp_all add: say_def quiet_def)

lemma do_bgfg_inv:
  assumes "do_bgfg s av os = (s', fx)"
    and "length (jobs s) = MAXJOBS" and "no_fg (jobs s)"
  shows "length (jobs s') = MAXJOBS \<and> ctl_inv (ctl fx) (jobs s')"
proof (cases av)
  case Nil
  then show ?thesis using assms by (auto simp: ctl_inv_def)
next
  case (Cons a0 rest)
  show ?thesis
  proof (cases rest)
    case Nil
    then show ?thesis using assms Cons by (auto simp: ctl_inv_def)
  next
    case (Cons ident rest')
    note av = \<open>av = a0 # rest\<close> Cons
    show ?thesis
    proof (cases ident)
      case Nil
      then show ?thesis using assms av by (auto simp: ctl_inv_def)
    next
      case (Cons c cs)
      show ?thesis
      proof (cases "c = CHR ''%''")
        case True
        show ?thesis
        proof (cases "getjobjid (jobs s) (atoi cs)")
          case None
          then show ?thesis using assms av Cons True by (auto simp: ctl_inv_def)
        next
          case (Some i)
          then have "do_bgfg_resume s a0 i (pid (jobs s ! i)) os = (s', fx)"
            using assms(1) av Cons True by simp
          then show ?thesis
            using do_bgfg_resume_inv assms(2,3) getjobjid_Some [OF Some] by blast
        qed
      next
        case npc: False
        show ?thesis
        proof (cases "isdigit c")
          case False
          then show ?thesis using assms av Cons npc by (auto simp: ctl_inv_def)
        next
          case True
          show ?thesis
          proof (cases "getjobpid (jobs s) (atoi ident)")
            case None
            then show ?thesis using assms av Cons npc True by (auto simp: ctl_inv_def)
          next
            case (Some i)
            then have "do_bgfg_resume s a0 i (atoi ident) os = (s', fx)"
              using assms(1) av Cons npc True by simp
            moreover have "i < MAXJOBS"
              using getjobpid_Some [OF Some] by simp
            ultimately show ?thesis
              using do_bgfg_resume_inv assms(2,3) by blast
          qed
        qed
      qed
    qed
  qed
qed

lemma builtin_cmd_inv:
  assumes "fst (builtin_cmd s av os) = (s', fx)"
    and "length (jobs s) = MAXJOBS" and "no_fg (jobs s)"
  shows "length (jobs s') = MAXJOBS \<and> ctl_inv (ctl fx) (jobs s')"
proof (cases "hd av = ''quit'' \<or> hd av = ''jobs'' \<or> \<not> (hd av = ''bg'' \<or> hd av = ''fg'')")
  case True
  then show ?thesis
    using assms by (auto simp: builtin_cmd_def ctl_inv_def split: if_splits)
next
  case False
  then have "do_bgfg s av os = (s', fx)"
    using assms(1) by (auto simp: builtin_cmd_def split: if_splits)
  then show ?thesis
    using do_bgfg_inv assms(2,3) by blast
qed

lemma addjob_inv:
  assumes "addjob s p st cmd = (s', msg, r)"
    and "length (jobs s) = MAXJOBS" and "no_fg (jobs s)"
  shows "length (jobs s') = MAXJOBS"
    and "st \<noteq> FG \<Longrightarrow> no_fg (jobs s')"
    and "fg_only p (jobs s')"
proof -
  have "s' = s \<or> (\<exists>i n. i < MAXJOBS
          \<and> s' = s\<lparr>jobs := (jobs s)[i := \<lparr>pid = p, jid = nextjid s, state = st, cmdline = cmd\<rparr>],
                    nextjid := n\<rparr>)"
  proof (cases "r = 1")
    case True
    then obtain i where i: "getjobpid_loop (jobs s) 0 0 = Some i"
      and s': "s' = s\<lparr>jobs := (jobs s)[i := \<lparr>pid = p, jid = nextjid s, state = st, cmdline = cmd\<rparr>],
                    nextjid := (if nextjid s + 1 > int MAXJOBS then 1 else nextjid s + 1)\<rparr>"
      using addjob_result [of s p st cmd s' msg] assms(1) by auto
    have "i < MAXJOBS" using getjobpid_loop_Some [OF i] by simp
    then show ?thesis using s' by blast
  next
    case False
    then have "s' = s"
      using assms(1) by (auto simp: addjob_def addjob_loop_char split: if_splits option.splits)
    then show ?thesis by simp
  qed
  then consider "s' = s"
    | i n where "i < MAXJOBS"
        "s' = s\<lparr>jobs := (jobs s)[i := \<lparr>pid = p, jid = nextjid s, state = st, cmdline = cmd\<rparr>],
                 nextjid := n\<rparr>"
    by blast
  then have "length (jobs s') = MAXJOBS \<and> (st \<noteq> FG \<longrightarrow> no_fg (jobs s')) \<and> fg_only p (jobs s')"
  proof cases
    case 1
    then show ?thesis using assms(2,3) by (simp add: no_fg_fg_only)
  next
    case 2
    have a: "st \<noteq> FG \<longrightarrow> no_fg (jobs s')"
      using 2 assms(3) by (simp add: no_fg_update_other)
    have b: "fg_only p (jobs s')"
      using no_fg_update_fg [OF assms(3) 2(1) assms(2), of "\<lparr>pid = p, jid = nextjid s, state = st, cmdline = cmd\<rparr>"] 2(2)
      by simp
    show ?thesis using a b 2 assms(2) by simp
  qed
  then show "length (jobs s') = MAXJOBS" and "st \<noteq> FG \<Longrightarrow> no_fg (jobs s')" and "fg_only p (jobs s')"
    by simp_all
qed

lemma eval_single_inv:
  assumes one: "length (parsepipe cmd) = 1"
    and ev: "eval s cmd os = Some (s', fx)"
    and len: "length (jobs s) = MAXJOBS" and nofg: "no_fg (jobs s)"
  shows "length (jobs s') = MAXJOBS \<and> ctl_inv (ctl fx) (jobs s')"
proof -
  obtain pr where pr: "parseline cmd = Some pr"
    using ev one by (auto simp: eval_def split: if_splits option.splits)
  have small: "\<not> length cmd \<ge> MAXLINE" "\<not> length (parsepipe cmd) \<ge> MAXARGS"
    using ev by (auto simp: eval_def split: if_splits)
  show ?thesis
  proof (cases "argv pr = []")
    case True
    then have "s' = s" "ctl fx = Return"
      using ev one pr small by (auto simp: eval_def)
    then show ?thesis using len nofg by (simp add: ctl_inv_def)
  next
    case args: False
    show ?thesis
    proof (cases "snd (builtin_cmd s (argv pr) os) \<noteq> 0")
      case True
      then have "fst (builtin_cmd s (argv pr) os) = (s', fx)"
        using ev one pr small args by (simp add: eval_def)
      then show ?thesis
        using builtin_cmd_inv len nofg by blast
    next
      case nb: False
      show ?thesis
      proof (cases "fork_ret os 0 = 0")
        case True
        then have "s' = s" "ctl fx = Exit"
          using ev one pr small args nb by (auto simp: eval_def)
        then show ?thesis using len nofg by (simp add: ctl_inv_def)
      next
        case parent: False
        obtain s1 o1 r where a: "addjob s (fork_ret os 0) (if bg pr then BG else FG) cmd = (s1, o1, r)"
          by (cases "addjob s (fork_ret os 0) (if bg pr then BG else FG) cmd") auto
        have res: "s' = s1" "ctl fx = (if bg pr then Return else WaitFg (fork_ret os 0))"
          using ev one pr small args nb parent a by (auto simp: eval_def)
        note inv = addjob_inv [OF a len nofg]
        show ?thesis
        proof (cases "bg pr")
          case True
          then show ?thesis using res inv(1,2) by (simp add: ctl_inv_def)
        next
          case False
          then show ?thesis using res inv(1,3) by (simp add: ctl_inv_def)
        qed
      qed
    qed
  qed
qed

lemma eval_other_inv:
  assumes many: "length (parsepipe cmd) \<noteq> 1"
    and ev: "eval s cmd os = Some (s', fx)"
    and len: "length (jobs s) = MAXJOBS" and nofg: "no_fg (jobs s)"
  shows "length (jobs s') = MAXJOBS \<and> ctl_inv (ctl fx) (jobs s')"
proof -
  have same: "s' = s"
    using ev many by (auto simp: eval_def split: if_splits option.splits prod.splits)
  have "ctl fx = Exit
          \<or> (\<exists>chs. fork_stages (parsepipe cmd) 0 (length (parsepipe cmd)) os = Some (chs, ctl fx))"
    using ev many by (auto simp: eval_def split: if_splits option.splits prod.splits)
  then have "ctl fx = Return \<or> ctl fx = Exit"
    using fork_stages_ctl by blast
  then show ?thesis
    using same len nofg by (auto simp: ctl_inv_def)
qed

lemma eval_inv:
  assumes "eval s cmd os = Some (s', fx)"
    and "length (jobs s) = MAXJOBS" and "no_fg (jobs s)"
  shows "length (jobs s') = MAXJOBS \<and> ctl_inv (ctl fx) (jobs s')"
  using assms eval_single_inv eval_other_inv by (cases "length (parsepipe cmd) = 1") blast+

subsection \<open>Every step keeps the invariant\<close>

subsection \<open>Every step keeps the invariant\<close>

lemma shrinks_fg_at: "shrinks js js' \<Longrightarrow> fg_at i js \<Longrightarrow> fg_at i js'"
  by (auto simp: shrinks_def fg_at_def)

lemma shrinks_prefix:
  "shrinks js js' \<Longrightarrow> \<forall>m < i. m < MAXJOBS \<longrightarrow> state (js ! m) \<noteq> FG
     \<Longrightarrow> \<forall>m < i. m < MAXJOBS \<longrightarrow> state (js' ! m) \<noteq> FG"
  by (auto simp: shrinks_def)

lemma pc_inv_shrinks: "shrinks js js' \<Longrightarrow> pc_inv m js \<Longrightarrow> pc_inv m js'"
proof (cases m)
  case (Waitfg p i)
  assume "shrinks js js'" "pc_inv m js"
  then show ?thesis
    using Waitfg shrinks_fg_only shrinks_prefix [of js js' i] by simp
qed (auto simp: shrinks_no_fg shrinks_fg_only shrinks_fg_at)

lemma fg_at_fg_only: "fg_at i js \<Longrightarrow> fg_only (pid (js ! i)) js"
  unfolding fg_at_def fg_only_def by metis

lemma fg_only_fg_at: "fg_only p js \<Longrightarrow> i < MAXJOBS \<Longrightarrow> state (js ! i) = FG \<Longrightarrow> fg_at i js"
  unfolding fg_at_def fg_only_def by metis

lemma no_fg_fg_at_update:
  assumes "no_fg js"
  shows "fg_at i (js[i := j])"
proof -
  have "m = i" if m: "m < MAXJOBS" and fg: "state (js[i := j] ! m) = FG" for m
  proof (rule ccontr)
    assume "m \<noteq> i"
    then have "js[i := j] ! m = js ! m" by simp
    then show False using assms m fg by (simp add: no_fg_def)
  qed
  then show ?thesis by (simp add: fg_at_def)
qed

lemma tick_inv:
  assumes t: "tick s m k = (s', m')"
    and len: "length (jobs s) = MAXJOBS" and inv: "pc_inv m (jobs s)"
  shows "length (jobs s') = MAXJOBS \<and> pc_inv m' (jobs s')"
proof (cases m)
  case Prompt
  then show ?thesis using t len inv by auto
next
  case (Bgfg_jid a0 j i)
  then show ?thesis using t len inv by (auto split: if_splits)
next
  case (Bgfg_pid a0 p i)
  then show ?thesis using t len inv by (auto split: if_splits)
next
  case (Bgfg_job a0 i)
  then show ?thesis using t len inv by auto
next
  case (Bgfg_kill a0 i p)
  then show ?thesis using t len inv by (auto split: if_splits)
next
  case (Bgfg_state a0 i)
  have nofg: "no_fg (jobs s)" and i: "i < MAXJOBS"
    using inv Bgfg_state by simp_all
  show ?thesis
  proof (cases "a0 = ''fg''")
    case True
    then have r: "s' = s\<lparr>jobs := (jobs s)[i := (jobs s ! i)\<lparr>state := FG\<rparr>]\<rparr>" "m' = Bgfg_wait i"
      using t Bgfg_state by auto
    show ?thesis
      using r len i no_fg_fg_at_update [OF nofg] by simp
  next
    case nfg: False
    show ?thesis
    proof (cases "a0 = ''bg''")
      case True
      then have r: "s' = s\<lparr>jobs := (jobs s)[i := (jobs s ! i)\<lparr>state := BG\<rparr>]\<rparr>" "m' = Prompt"
        using t Bgfg_state nfg by auto
      have "no_fg ((jobs s)[i := (jobs s ! i)\<lparr>state := BG\<rparr>])"
        using nofg by (intro no_fg_update_other) simp_all
      then show ?thesis using r len by simp
    next
      case False
      then show ?thesis using t Bgfg_state nfg len nofg by auto
    qed
  qed
next
  case (Bgfg_wait i)
  then have "fg_at i (jobs s)" using inv by simp
  then have "fg_only (pid (jobs s ! i)) (jobs s)" by (rule fg_at_fg_only)
  then show ?thesis using t len Bgfg_wait by auto
next
  case (Waitfg p i)
  have only: "fg_only p (jobs s)"
    and pre: "\<forall>m < i. m < MAXJOBS \<longrightarrow> state (jobs s ! m) \<noteq> FG"
    using inv Waitfg by simp_all
  have same: "s' = s" using t Waitfg by auto
  show ?thesis
  proof (cases "i < MAXJOBS")
    case True
    show ?thesis
    proof (cases "state (jobs s ! i) = FG")
      case fg: True
      then have "m' = Waitfg_pid p i" using t Waitfg True by auto
      then show ?thesis
        using same len only True fg_only_fg_at [OF only True fg] by simp
    next
      case False
      then have m': "m' = Waitfg p (i + 1)" using t Waitfg True by auto
      have "\<forall>m < i + 1. m < MAXJOBS \<longrightarrow> state (jobs s ! m) \<noteq> FG"
        using pre False by (auto simp: less_Suc_eq)
      then show ?thesis using same len only m' by simp
    qed
  next
    case False
    show ?thesis
    proof (cases "p = 0")
      case True
      then have "m' = Waitfg p 0" using t Waitfg False by auto
      then show ?thesis using same len only by simp
    next
      case pne: False
      then have "m' = Prompt" using t Waitfg False by auto
      moreover have "no_fg (jobs s)"
        using pre False by (auto simp: no_fg_def)
      ultimately show ?thesis using same len by simp
    qed
  qed
next
  case (Waitfg_pid p i)
  have only: "fg_only p (jobs s)" and at: "fg_at i (jobs s)" and i: "i < MAXJOBS"
    using inv Waitfg_pid by simp_all
  have same: "s' = s" using t Waitfg_pid by auto
  show ?thesis
  proof (cases "p = pid (jobs s ! i)")
    case True
    then have "m' = Waitfg p 0" using t Waitfg_pid by auto
    then show ?thesis using same len only by simp
  next
    case False
    then have m': "m' = Prompt" using t Waitfg_pid by auto
    have "no_fg (jobs s)"
      unfolding no_fg_def
    proof (intro allI impI notI)
      fix n assume n: "n < MAXJOBS" and fg: "state (jobs s ! n) = FG"
      then have "n = i" using at by (simp add: fg_at_def)
      then have "pid (jobs s ! i) = p" using only n fg by (simp add: fg_only_def)
      then show False using False by simp
    qed
    then show ?thesis using same len m' by simp
  qed
next
  case Exited
  then show ?thesis using t len inv by auto
qed

lemma do_bgfg_enter_inv: "no_fg js \<Longrightarrow> pc_inv (do_bgfg_enter av) js"
proof (induction av rule: do_bgfg_enter.induct)
  case 1
  then show ?case by simp
next
  case (2 a0)
  then show ?case by simp
next
  case (3 a0 ident rest)
  then show ?case by (cases ident) auto
qed

lemma step_inv:
  assumes "step y e = Some y'" and "main_inv y"
  shows "main_inv y'"
proof (cases e)
  case (Command line os)
  show ?thesis
  proof (cases "md y = Prompt")
    case False
    then have "y' = y"
      using assms(1) Command by simp
    then show ?thesis using assms(2) by simp
  next
    case True
    have len: "length (jobs (sh y)) = MAXJOBS" and nofg: "no_fg (jobs (sh y))"
      using assms(2) True by (simp_all add: main_inv_def)
    show ?thesis
    proof (cases "bgfg_args line")
      case (Some av)
      then have "y' = y\<lparr>md := do_bgfg_enter av\<rparr>"
        using assms(1) Command True by simp
      then show ?thesis
        using len do_bgfg_enter_inv [OF nofg] by (simp add: main_inv_def)
    next
      case None
      then obtain s' fx where ev: "eval (sh y) line os = Some (s', fx)"
        and y': "y' = \<lparr>sh = s', md = (case ctl fx of Return \<Rightarrow> Prompt | WaitFg p \<Rightarrow> Waitfg p 0 | Exit \<Rightarrow> Exited)\<rparr>"
        using assms(1) Command True by (auto split: option.splits)
      have "length (jobs s') = MAXJOBS \<and> ctl_inv (ctl fx) (jobs s')"
        using eval_inv [OF ev len nofg] by simp
      then show ?thesis
        by (cases "ctl fx") (simp_all add: y' main_inv_def ctl_inv_def)
    qed
  qed
next
  case (Tick k)
  obtain s' m' where t: "tick (sh y) (md y) k = (s', m')"
    by (cases "tick (sh y) (md y) k")
  then have y': "y' = \<lparr>sh = s', md = m'\<rparr>"
    using assms(1) Tick by simp
  show ?thesis
    using tick_inv [OF t] assms(2) by (simp add: y' main_inv_def)
next
  case (Sigchld ns)
  show ?thesis
  proof (cases "md y = Exited")
    case True
    then have "y' = y" using assms(1) Sigchld by simp
    then show ?thesis using assms(2) by simp
  next
    case False
    then have y': "y' = y\<lparr>sh := fst (sigchld_handler (sh y) ns)\<rparr>"
      using assms(1) Sigchld by simp
    have sh: "shrinks (jobs (sh y)) (jobs (sh y'))"
      using sigchld_handler_shrinks [of "sh y" ns] by (simp add: y')
    then have len: "length (jobs (sh y')) = length (jobs (sh y))"
      by (simp add: shrinks_def)
    have md: "md y' = md y" by (simp add: y')
    show ?thesis
      using assms(2) len pc_inv_shrinks [OF sh] by (simp add: main_inv_def md)
  qed
next
  case Sigint
  then show ?thesis using assms by simp
next
  case Sigtstp
  then show ?thesis using assms by simp
qed

lemma run_inv: "run y es = Some y' \<Longrightarrow> main_inv y \<Longrightarrow> main_inv y'"
proof (induction es arbitrary: y)
  case Nil
  then show ?case by simp
next
  case (Cons e es)
  then obtain y1 where s: "step y e = Some y1" and r: "run y1 es = Some y'"
    by (auto split: option.splits)
  show ?case
    using Cons.IH [OF r] step_inv [OF s Cons.prems(2)] by simp
qed

lemma init_inv: "main_inv (init_sys v)"
  by (simp add: main_inv_def init_sys_def init_jobs no_fg_def clearjob_def)

lemma filter_at_most_one:
  "distinct xs \<Longrightarrow> (\<forall>i \<in> set xs. \<forall>j \<in> set xs. P i \<and> P j \<longrightarrow> i = j) \<Longrightarrow> length (filter P xs) \<le> 1"
proof (induction xs)
  case Nil
  show ?case by simp
next
  case (Cons x xs)
  show ?case
  proof (cases "P x")
    case True
    have "filter P xs = []"
    proof (rule ccontr)
      assume "filter P xs \<noteq> []"
      then obtain z where "z \<in> set xs" "P z"
        by (metis filter_False)
      then show False using Cons.prems True by auto
    qed
    then show ?thesis using True by simp
  next
    case False
    then show ?thesis using Cons by simp
  qed
qed

lemma fg_only_count: "fg_only p js \<Longrightarrow> fg_count js \<le> 1"
  unfolding fg_count_def fg_only_def
  by (intro filter_at_most_one) auto

lemma pc_inv_fg_only: "pc_inv m js \<Longrightarrow> \<exists>p. fg_only p js"
proof (cases m)
  case (Bgfg_wait i)
  assume "pc_inv m js"
  then have "fg_at i js" using Bgfg_wait by simp
  then show ?thesis using fg_at_fg_only by blast
qed (auto intro: no_fg_fg_only)

lemma pc_inv_count:
  assumes "pc_inv m js"
  shows "fg_count js \<le> 1"
proof -
  obtain p where "fg_only p js"
    using pc_inv_fg_only [OF assms] by blast
  then show ?thesis by (rule fg_only_count)
qed

subsection \<open>Steps of the main flow that no handler interrupts\<close>

text \<open>
  Followed step by step with no handler in between, \<^verbatim>\<open>do_bgfg\<close> and one round of
  \<^verbatim>\<open>waitfg\<close>'s loop end where the functions \<open>do_bgfg\<close> and \<open>waitfg_cond\<close> say.
\<close>

lemma run_append:
  "run y (es1 @ es2) = (case run y es1 of None \<Rightarrow> None | Some y1 \<Rightarrow> run y1 es2)"
  by (induction es1 arbitrary: y) (auto split: option.splits)

lemma ticks_to_refl: "ticks_to k y y"
  unfolding ticks_to_def by (rule exI [of _ 0]) simp

lemma ticks_to_trans: "ticks_to k y y1 \<Longrightarrow> ticks_to k y1 y2 \<Longrightarrow> ticks_to k y y2"
proof -
  assume "ticks_to k y y1" and "ticks_to k y1 y2"
  then obtain n m where a: "run y (replicate n (Tick k)) = Some y1"
    and b: "run y1 (replicate m (Tick k)) = Some y2"
    unfolding ticks_to_def by blast
  have "run y (replicate (n + m) (Tick k)) = Some y2"
    using a b by (simp add: replicate_add run_append)
  then show ?thesis unfolding ticks_to_def by blast
qed

lemma ticks_to_step:
  "tick s m k = (s', m') \<Longrightarrow> ticks_to k \<lparr>sh = s, md = m\<rparr> \<lparr>sh = s', md = m'\<rparr>"
  unfolding ticks_to_def by (rule exI [of _ 1]) simp

lemma ticks_to_step_then:
  "tick s m k = (s', m') \<Longrightarrow> ticks_to k \<lparr>sh = s', md = m'\<rparr> y \<Longrightarrow> ticks_to k \<lparr>sh = s, md = m\<rparr> y"
  using ticks_to_step ticks_to_trans by blast

lemma ticks_getjobjid:
  "ticks_to k \<lparr>sh = s, md = Bgfg_jid a0 j i\<rparr>
     \<lparr>sh = s, md = (case getjobjid_loop (jobs s) j i of None \<Rightarrow> Prompt | Some x \<Rightarrow> Bgfg_job a0 x)\<rparr>"
proof (induction "jobs s" j i rule: getjobjid_loop.induct)
  case (1 j i)
  show ?case
  proof (cases "i < MAXJOBS \<and> jid (jobs s ! i) \<noteq> j")
    case True
    then have t: "tick s (Bgfg_jid a0 j i) k = (s, Bgfg_jid a0 j (i + 1))" by simp
    have "getjobjid_loop (jobs s) j i = getjobjid_loop (jobs s) j (i + 1)"
      using True by (simp add: getjobjid_loop.simps [of "jobs s" j i])
    then show ?thesis
      using ticks_to_step_then [OF t] "1.hyps" True by simp
  next
    case False
    then have "tick s (Bgfg_jid a0 j i) k
                 = (s, case getjobjid_loop (jobs s) j i of None \<Rightarrow> Prompt | Some x \<Rightarrow> Bgfg_job a0 x)"
      by (auto simp: getjobjid_loop.simps [of "jobs s" j i])
    then show ?thesis by (rule ticks_to_step)
  qed
qed

lemma ticks_getjobpid:
  "ticks_to k \<lparr>sh = s, md = Bgfg_pid a0 p i\<rparr>
     \<lparr>sh = s, md = (case getjobpid_loop (jobs s) p i of None \<Rightarrow> Prompt | Some x \<Rightarrow> Bgfg_kill a0 x p)\<rparr>"
proof (induction "jobs s" p i rule: getjobpid_loop.induct)
  case (1 p i)
  show ?case
  proof (cases "i < MAXJOBS \<and> pid (jobs s ! i) \<noteq> p")
    case True
    then have t: "tick s (Bgfg_pid a0 p i) k = (s, Bgfg_pid a0 p (i + 1))" by simp
    have "getjobpid_loop (jobs s) p i = getjobpid_loop (jobs s) p (i + 1)"
      using True by (simp add: getjobpid_loop.simps [of "jobs s" p i])
    then show ?thesis
      using ticks_to_step_then [OF t] "1.hyps" True by simp
  next
    case False
    then have "tick s (Bgfg_pid a0 p i) k
                 = (s, case getjobpid_loop (jobs s) p i of None \<Rightarrow> Prompt | Some x \<Rightarrow> Bgfg_kill a0 x p)"
      by (auto simp: getjobpid_loop.simps [of "jobs s" p i])
    then show ?thesis by (rule ticks_to_step)
  qed
qed

lemma ticks_fgpid:
  "\<exists>n > 0. run \<lparr>sh = s, md = Waitfg p i\<rparr> (replicate n (Tick k))
       = Some \<lparr>sh = s, md = (if p = fgpid_loop (jobs s) i then Waitfg p 0 else Prompt)\<rparr>"
proof (induction "jobs s" i rule: fgpid_loop.induct)
  case (1 i)
  show ?case
  proof (cases "i < MAXJOBS")
    case False
    then have "run \<lparr>sh = s, md = Waitfg p i\<rparr> (replicate 1 (Tick k))
       = Some \<lparr>sh = s, md = (if p = fgpid_loop (jobs s) i then Waitfg p 0 else Prompt)\<rparr>"
      by (simp add: fgpid_loop.simps [of "jobs s" i])
    then show ?thesis by (intro exI [of _ 1]) simp
  next
    case True
    show ?thesis
    proof (cases "state (jobs s ! i) = FG")
      case fg: True
      then have "run \<lparr>sh = s, md = Waitfg p i\<rparr> (replicate 2 (Tick k))
         = Some \<lparr>sh = s, md = (if p = fgpid_loop (jobs s) i then Waitfg p 0 else Prompt)\<rparr>"
        using True by (simp add: fgpid_loop.simps [of "jobs s" i] numeral_2_eq_2)
      then show ?thesis by (intro exI [of _ 2]) simp
    next
      case False
      then obtain n where n: "n > 0"
        and r: "run \<lparr>sh = s, md = Waitfg p (i + 1)\<rparr> (replicate n (Tick k))
                  = Some \<lparr>sh = s, md = (if p = fgpid_loop (jobs s) (i + 1) then Waitfg p 0 else Prompt)\<rparr>"
        using "1.hyps" True by blast
      have "fgpid_loop (jobs s) i = fgpid_loop (jobs s) (i + 1)"
        using True False by (simp add: fgpid_loop.simps [of "jobs s" i])
      then have "run \<lparr>sh = s, md = Waitfg p i\<rparr> (replicate (Suc n) (Tick k))
         = Some \<lparr>sh = s, md = (if p = fgpid_loop (jobs s) i then Waitfg p 0 else Prompt)\<rparr>"
        using True False r by simp
      then show ?thesis by (intro exI [of _ "Suc n"]) simp
    qed
  qed
qed

lemma waitfg_round:
  "\<exists>n > 0. run \<lparr>sh = s, md = Waitfg p 0\<rparr> (replicate n (Tick k))
       = Some \<lparr>sh = s, md = (if waitfg_cond s p then Waitfg p 0 else Prompt)\<rparr>"
  using ticks_fgpid [of s p 0 k] by (simp add: waitfg_cond_def fgpid_def)

lemma ticks_resume:
  "ticks_to (kill_ok os) \<lparr>sh = s, md = Bgfg_kill a0 i p\<rparr>
     \<lparr>sh = fst (do_bgfg_resume s a0 i p os),
      md = pc_of_control (ctl (snd (do_bgfg_resume s a0 i p os)))\<rparr>"
proof (cases "kill_ok os")
  case False
  then have "tick s (Bgfg_kill a0 i p) (kill_ok os)
     = (fst (do_bgfg_resume s a0 i p os), pc_of_control (ctl (snd (do_bgfg_resume s a0 i p os))))"
    by (simp add: do_bgfg_resume_def pc_of_control_def)
  then show ?thesis by (rule ticks_to_step)
next
  case True
  then have t1: "tick s (Bgfg_kill a0 i p) (kill_ok os) = (s, Bgfg_state a0 i)" by simp
  show ?thesis
  proof (cases "a0 = ''fg''")
    case fg: True
    let ?s = "s\<lparr>jobs := (jobs s)[i := (jobs s ! i)\<lparr>state := FG\<rparr>]\<rparr>"
    have t2: "tick s (Bgfg_state a0 i) (kill_ok os) = (?s, Bgfg_wait i)"
      using fg by simp
    have t3: "tick ?s (Bgfg_wait i) (kill_ok os)
       = (fst (do_bgfg_resume s a0 i p os), pc_of_control (ctl (snd (do_bgfg_resume s a0 i p os))))"
      using fg True by (simp add: do_bgfg_resume_def pc_of_control_def Let_def)
    show ?thesis
      using ticks_to_step_then [OF t1] ticks_to_step_then [OF t2] ticks_to_step [OF t3] by blast
  next
    case False
    then have t2: "tick s (Bgfg_state a0 i) (kill_ok os)
       = (fst (do_bgfg_resume s a0 i p os), pc_of_control (ctl (snd (do_bgfg_resume s a0 i p os))))"
      using True by (simp add: do_bgfg_resume_def pc_of_control_def Let_def)
    show ?thesis
      using ticks_to_step_then [OF t1] ticks_to_step [OF t2] by blast
  qed
qed

lemma ticks_do_bgfg:
  "ticks_to (kill_ok os) \<lparr>sh = s, md = do_bgfg_enter av\<rparr>
     \<lparr>sh = fst (do_bgfg s av os), md = pc_of_control (ctl (snd (do_bgfg s av os)))\<rparr>"
proof (cases av)
  case Nil
  then show ?thesis by (simp add: pc_of_control_def ticks_to_refl)
next
  case (Cons a0 rest)
  show ?thesis
  proof (cases rest)
    case Nil
    then show ?thesis using Cons by (simp add: pc_of_control_def ticks_to_refl)
  next
    case (Cons ident rest')
    note av = \<open>av = a0 # rest\<close> Cons
    show ?thesis
    proof (cases ident)
      case Nil
      then show ?thesis using av by (simp add: pc_of_control_def ticks_to_refl)
    next
      case (Cons c cs)
      show ?thesis
      proof (cases "c = CHR ''%''")
        case True
        show ?thesis
        proof (cases "atoi cs < 1")
          case small: True
          then show ?thesis
            using av Cons True by (simp add: getjobjid_def pc_of_control_def ticks_to_refl)
        next
          case False
          then have g: "getjobjid (jobs s) (atoi cs) = getjobjid_loop (jobs s) (atoi cs) 0"
            by (simp add: getjobjid_def)
          have enter: "do_bgfg_enter av = Bgfg_jid a0 (atoi cs) 0"
            using av Cons True False by simp
          note scan = ticks_getjobjid [of "kill_ok os" s a0 "atoi cs" 0]
          show ?thesis
          proof (cases "getjobjid_loop (jobs s) (atoi cs) 0")
            case None
            then show ?thesis
              using scan enter g av Cons True by (simp add: pc_of_control_def)
          next
            case (Some x)
            have a: "ticks_to (kill_ok os) \<lparr>sh = s, md = do_bgfg_enter av\<rparr> \<lparr>sh = s, md = Bgfg_job a0 x\<rparr>"
              using scan enter Some by simp
            have t: "tick s (Bgfg_job a0 x) (kill_ok os) = (s, Bgfg_kill a0 x (pid (jobs s ! x)))"
              by simp
            have b: "do_bgfg s av os = do_bgfg_resume s a0 x (pid (jobs s ! x)) os"
              using g Some av Cons True by simp
            show ?thesis
              using ticks_to_trans [OF a ticks_to_step_then [OF t ticks_resume [of os s a0 x "pid (jobs s ! x)"]]] b
              by simp
          qed
        qed
      next
        case npc: False
        show ?thesis
        proof (cases "isdigit c")
          case False
          then show ?thesis
            using av Cons npc by (simp add: pc_of_control_def ticks_to_refl)
        next
          case True
          show ?thesis
          proof (cases "atoi ident < 1")
            case small: True
            then show ?thesis
              using av Cons npc True by (simp add: getjobpid_def pc_of_control_def ticks_to_refl)
          next
            case False
            then have g: "getjobpid (jobs s) (atoi ident) = getjobpid_loop (jobs s) (atoi ident) 0"
              by (simp add: getjobpid_def)
            have enter: "do_bgfg_enter av = Bgfg_pid a0 (atoi ident) 0"
              using av Cons npc True False by simp
            note scan = ticks_getjobpid [of "kill_ok os" s a0 "atoi ident" 0]
            show ?thesis
            proof (cases "getjobpid_loop (jobs s) (atoi ident) 0")
              case None
              then show ?thesis
                using scan enter g av Cons npc True by (simp add: pc_of_control_def)
            next
              case (Some x)
              have a: "ticks_to (kill_ok os) \<lparr>sh = s, md = do_bgfg_enter av\<rparr>
                         \<lparr>sh = s, md = Bgfg_kill a0 x (atoi ident)\<rparr>"
                using scan enter Some by simp
              have b: "do_bgfg s av os = do_bgfg_resume s a0 x (atoi ident) os"
                using g Some av Cons npc True by simp
              show ?thesis
                using ticks_to_trans [OF a ticks_resume [of os s a0 x "atoi ident"]] b by simp
            qed
          qed
        qed
      qed
    qed
  qed
qed

lemma bgfg_args_eval:
  assumes "bgfg_args line = Some av"
  shows "eval s line os = Some (do_bgfg s av os)"
proof -
  obtain pr where pr: "parseline line = Some pr" and av: "av = argv pr"
    and ne: "argv pr \<noteq> []" and hd: "hd (argv pr) = ''bg'' \<or> hd (argv pr) = ''fg''"
    and len: "\<not> length line \<ge> MAXLINE" and one: "length (parsepipe line) = 1"
    using assms by (auto simp: bgfg_args_def split: if_splits option.splits)
  have b: "builtin_cmd s (argv pr) os = (do_bgfg s (argv pr) os, 1)"
    using hd by (auto simp: builtin_cmd_def)
  show ?thesis
    using pr ne len one b by (simp add: eval_def av MAXARGS_def)
qed

lemma bgfg_steps_agree_with_eval:
  assumes "md y = Prompt" and "bgfg_args line = Some av"
  shows "\<exists>y1 s' fx. step y (Command line os) = Some y1 \<and> eval (sh y) line os = Some (s', fx)
           \<and> ticks_to (kill_ok os) y1 \<lparr>sh = s', md = pc_of_control (ctl fx)\<rparr>"
proof -
  have st: "step y (Command line os) = Some \<lparr>sh = sh y, md = do_bgfg_enter av\<rparr>"
    using assms by simp
  have ev: "eval (sh y) line os = Some (fst (do_bgfg (sh y) av os), snd (do_bgfg (sh y) av os))"
    using bgfg_args_eval [OF assms(2)] by simp
  show ?thesis
    using st ev ticks_do_bgfg [of os "sh y" av] by blast
qed

subsection \<open>The invariant gives the claim\<close>

text \<open>
  Claim C1. In every state that the shell reaches from its start, at most one slot of
  the job table has the state \<^verbatim>\<open>FG\<close>. The states reached are those after any sequence
  of command lines (launches, pipelines, \<^verbatim>\<open>jobs\<close>, \<^verbatim>\<open>bg\<close>, \<^verbatim>\<open>fg\<close>, \<^verbatim>\<open>quit\<close>), of single
  steps of the main flow inside \<^verbatim>\<open>do_bgfg\<close> and \<^verbatim>\<open>waitfg\<close>, and of runs of the signal
  handlers between any two of these steps, without undefined behaviour of the C code.
\<close>

theorem at_most_one_foreground:
  "run (init_sys v) es = Some y \<Longrightarrow> fg_count (jobs (sh y)) \<le> 1"
proof -
  assume "run (init_sys v) es = Some y"
  then have "main_inv y"
    using init_inv by (rule run_inv)
  then have "pc_inv (md y) (jobs (sh y))"
    by (simp add: main_inv_def)
  then show ?thesis
    by (rule pc_inv_count)
qed

theorem at_most_one_foreground_witness:
  "map_option (\<lambda>y. (jobs (sh y) ! 0, md y, fg_count (jobs (sh y)))) (run (init_sys False) session)
     = Some (\<lparr>pid = 0, jid = 0, state = FG, cmdline = []\<rparr>, Waitfg 0 0, 1)
   \<and> fg_count (jobs (sh (the (run (init_sys False) session)))) \<le> 1"
proof -
  have r: "map_option (\<lambda>y. (jobs (sh y) ! 0, md y, fg_count (jobs (sh y)))) (run (init_sys False) session)
     = Some (\<lparr>pid = 0, jid = 0, state = FG, cmdline = []\<rparr>, Waitfg 0 0, 1)"
    unfolding session_def os_ok_def by code_simp
  then obtain y where y: "run (init_sys False) session = Some y"
    by blast
  show ?thesis
    using r y at_most_one_foreground [OF y] by simp
qed

end
